theory Spec2Isabelle
  imports Main "HOL-Library.Multiset"
begin

section \<open>The sweepstake program (sweepstake.py)\<close>

subsection \<open>Data model\<close>

text \<open>
  The dataclass \<^verbatim>\<open>Sweepstake\<close> declares two fields, \<^verbatim>\<open>participants\<close> and
  \<^verbatim>\<open>teams\<close>; these are all that exists of the object while \<^verbatim>\<open>__post_init__\<close>
  runs \<^verbatim>\<open>segment_teams\<close>. \<^verbatim>\<open>__post_init__\<close> then adds \<^verbatim>\<open>segmented_teams\<close>
  and \<^verbatim>\<open>assignments\<close>. The object under construction is the record
  \<open>init_args\<close>, the constructed object its extension \<open>sweepstake\<close>; the methods
  that read only the declared fields work on both.
\<close>

text \<open>
  A Python \<^verbatim>\<open>dict\<close> keeps its keys in insertion order, and storing under a key
  that is already present keeps the key's position. It is an association list
  with pairwise distinct keys.
\<close>

type_synonym dict = "(string \<times> string list) list"

record init_args =
  participants :: "string list"
  teams :: "string list"

record sweepstake = init_args +
  segmented_teams :: "string list list"
  assignments :: dict

text \<open>The exceptions that the statements of the program can raise.\<close>

datatype py_error = IndexError | KeyError | ValueError

text \<open>
  The generator of module \<^verbatim>\<open>random\<close> is global state. It is modelled by an arbitrary
  function \<open>g\<close> that gives the raw output of the \<open>k\<close>-th call, and the number \<open>k\<close>
  of calls made so far, which is threaded through the methods that draw.
\<close>

type_synonym rng = "nat \<Rightarrow> nat"

subsection \<open>Library operations used by the program\<close>

text \<open>\<^verbatim>\<open>d[key] = value\<close>\<close>

fun dict_set :: "string \<Rightarrow> string list \<Rightarrow> dict \<Rightarrow> dict" where
  "dict_set k v [] = [(k, v)]"
| "dict_set k v (p # ps) = (if fst p = k then (k, v) # ps else p # dict_set k v ps)"

text \<open>\<^verbatim>\<open>d[key]\<close>, which raises \<^verbatim>\<open>KeyError\<close> for a missing key\<close>

definition dict_get :: "dict \<Rightarrow> string \<Rightarrow> py_error + string list" where
  "dict_get d k = (case map_of d k of None \<Rightarrow> Inl KeyError | Some v \<Rightarrow> Inr v)"

text \<open>
  \<^verbatim>\<open>d[key].append(x)\<close>: the list stored under the key grows in place. Every list
  of \<^verbatim>\<open>assignments\<close> is a fresh object, so no other entry changes.
\<close>

definition dict_append :: "dict \<Rightarrow> string \<Rightarrow> string \<Rightarrow> py_error + dict" where
  "dict_append d k x =
     (case dict_get d k of Inl e \<Rightarrow> Inl e | Inr v \<Rightarrow> Inr (dict_set k (v @ [x]) d))"

text \<open>
  \<^verbatim>\<open>random.choice(seq)\<close>: raises \<^verbatim>\<open>IndexError\<close> on an empty sequence, otherwise
  returns \<^verbatim>\<open>seq[randbelow(len(seq))]\<close>.
\<close>

definition choice :: "rng \<Rightarrow> nat \<Rightarrow> 'a list \<Rightarrow> py_error + 'a" where
  "choice g k seq =
     (if length seq = 0 then Inl IndexError else Inr (seq ! (g k mod length seq)))"

text \<open>
  \<^verbatim>\<open>xs.remove(x)\<close>: removes the first occurrence, raises \<^verbatim>\<open>ValueError\<close> when
  there is none.
\<close>

definition list_remove :: "'a \<Rightarrow> 'a list \<Rightarrow> py_error + 'a list" where
  "list_remove x xs = (if x \<in> set xs then Inr (remove1 x xs) else Inl ValueError)"

subsection \<open>Segmentation\<close>

text \<open>
  \<^verbatim>\<open>take_segment\<close>: the index is computed from the whole list \<^verbatim>\<open>self.teams\<close>, not
  from \<^verbatim>\<open>remaining_teams\<close>; a slice beyond the end of a list is cut at the end, as
  \<open>take\<close> and \<open>drop\<close> are.
\<close>

definition take_segment ::
  "'a init_args_scheme \<Rightarrow> string list \<Rightarrow> string list \<times> string list" where
  "take_segment self remaining_teams =
     (let segment_index = min (length (participants self)) (length (teams self))
      in (take segment_index remaining_teams, drop segment_index remaining_teams))"

text \<open>
  The \<^verbatim>\<open>while\<close> loop of \<^verbatim>\<open>segment_teams\<close>. Nothing in the code bounds the number
  of iterations, so the loop is a partial function: \<open>None\<close> is a run that never
  leaves the loop.
\<close>

partial_function (option) segment_teams_loop ::
  "'a init_args_scheme \<Rightarrow> string list list \<Rightarrow> string list \<Rightarrow> string list list option" where
  "segment_teams_loop self segmented remaining_teams =
     (if length remaining_teams > 0
      then (case take_segment self remaining_teams of
              (current_segment, remaining_teams') \<Rightarrow>
                segment_teams_loop self (segmented @ [current_segment]) remaining_teams')
      else Some segmented)"

declare segment_teams_loop.simps [code]

definition segment_teams :: "'a init_args_scheme \<Rightarrow> string list list option" where
  "segment_teams self = segment_teams_loop self [] (teams self)"

subsection \<open>Construction\<close>

text \<open>The dict comprehension \<^verbatim>\<open>{participant: [] for participant in self.participants}\<close>\<close>

fun empty_assignments :: "string list \<Rightarrow> dict \<Rightarrow> dict" where
  "empty_assignments [] d = d"
| "empty_assignments (participant # rest) d = empty_assignments rest (dict_set participant [] d)"

definition post_init :: "init_args \<Rightarrow> sweepstake option" where
  "post_init self =
     (case segment_teams self of
        None \<Rightarrow> None
      | Some segmented \<Rightarrow>
          Some \<lparr>participants = participants self, teams = teams self,
                segmented_teams = segmented,
                assignments = empty_assignments (participants self) []\<rparr>)"

text \<open>\<^verbatim>\<open>Sweepstake(participants=ps, teams=ts)\<close>\<close>

definition Sweepstake :: "string list \<Rightarrow> string list \<Rightarrow> sweepstake option" where
  "Sweepstake ps ts = post_init \<lparr>participants = ps, teams = ts\<rparr>"

subsection \<open>Assignment\<close>

text \<open>
  One iteration of the \<^verbatim>\<open>for\<close> loop of \<^verbatim>\<open>assign_from_segments\<close>, on the local
  list \<^verbatim>\<open>participants\<close> (the draw pool), the dict and the number of draws made.
\<close>

definition assign_team ::
  "rng \<Rightarrow> string \<Rightarrow> string list \<times> dict \<times> nat \<Rightarrow> py_error + string list \<times> dict \<times> nat" where
  "assign_team g team st =
     (case st of (pool, d, k) \<Rightarrow>
        (case choice g k pool of
           Inl e \<Rightarrow> Inl e
         | Inr participant \<Rightarrow>
             (case dict_append d participant team of
                Inl e \<Rightarrow> Inl e
              | Inr d' \<Rightarrow>
                  (case list_remove participant pool of
                     Inl e \<Rightarrow> Inl e
                   | Inr pool' \<Rightarrow> Inr (pool', d', Suc k)))))"

text \<open>
  The \<^verbatim>\<open>for\<close> loop over the teams of the segment. An exception leaves the loop at
  once: the result is \<open>Inl\<close> of the error, and a run that returns is \<open>Inr\<close> of the
  pool, the dict and the number of draws at the end.
\<close>

fun assign_loop ::
  "rng \<Rightarrow> string list \<Rightarrow> string list \<times> dict \<times> nat \<Rightarrow> py_error + string list \<times> dict \<times> nat" where
  "assign_loop g [] st = Inr st"
| "assign_loop g (team # rest) st =
     (case assign_team g team st of Inl e \<Rightarrow> Inl e | Inr st' \<Rightarrow> assign_loop g rest st')"

text \<open>
  \<^verbatim>\<open>assign_from_segments\<close> draws from a copy of \<^verbatim>\<open>self.participants\<close>; of the object
  it changes \<^verbatim>\<open>assignments\<close> only.
\<close>

definition assign_from_segments ::
  "rng \<Rightarrow> string list \<Rightarrow> sweepstake \<times> nat \<Rightarrow> py_error + sweepstake \<times> nat" where
  "assign_from_segments g segment st =
     (case st of (self, k) \<Rightarrow>
        (case assign_loop g segment (participants self, assignments self, k) of
           Inl e \<Rightarrow> Inl e
         | Inr (pool, d, k') \<Rightarrow> Inr (self\<lparr>assignments := d\<rparr>, k')))"

text \<open>\<^verbatim>\<open>assign_teams\<close>: the \<^verbatim>\<open>for\<close> loop over \<^verbatim>\<open>self.segmented_teams\<close>.\<close>

fun assign_teams_loop ::
  "rng \<Rightarrow> string list list \<Rightarrow> sweepstake \<times> nat \<Rightarrow> py_error + sweepstake \<times> nat" where
  "assign_teams_loop g [] st = Inr st"
| "assign_teams_loop g (segment # rest) st =
     (case assign_from_segments g segment st of
        Inl e \<Rightarrow> Inl e
      | Inr st' \<Rightarrow> assign_teams_loop g rest st')"

definition assign_teams :: "rng \<Rightarrow> sweepstake \<times> nat \<Rightarrow> py_error + sweepstake \<times> nat" where
  "assign_teams g st = assign_teams_loop g (segmented_teams (fst st)) st"

text \<open>
  Two random sources for running the program on examples: one whose raw output is always
  \<open>0\<close> (the first name of the pool is drawn), and one whose \<open>k\<close>-th raw output is \<open>k\<close>.
\<close>

definition first_choice :: rng where
  "first_choice k = 0"

definition counting_choice :: rng where
  "counting_choice k = k"


section \<open>Properties\<close>

subsection \<open>The segmentation loop\<close>

text \<open>
  When the index \<open>k\<close> is positive the loop returns: the recursion is on the length of
  the remaining teams. The sizes of the segments are \<open>k\<close>, as often as \<open>k\<close> fits, and
  then the remainder, if any.
\<close>

lemma segment_teams_loop_sizes:
  assumes k: "k = min (length (participants self)) (length (teams self))" and pos: "0 < k"
  shows "\<exists>segs. segment_teams_loop self acc rem = Some (acc @ segs) \<and> concat segs = rem \<and>
           map length segs =
             replicate (length rem div k) k @ (if length rem mod k = 0 then [] else [length rem mod k])"
proof (induction rem arbitrary: acc rule: length_induct)
  case (1 rem)
  show ?case
  proof (cases "rem = []")
    case True
    then show ?thesis by (simp add: segment_teams_loop.simps)
  next
    case False
    have shorter: "length (drop k rem) < length rem" using False pos by simp
    from 1 shorter obtain segs where
      run: "segment_teams_loop self (acc @ [take k rem]) (drop k rem) = Some ((acc @ [take k rem]) @ segs)"
      and cat: "concat segs = drop k rem"
      and sizes: "map length segs = replicate (length (drop k rem) div k) k @
                    (if length (drop k rem) mod k = 0 then [] else [length (drop k rem) mod k])"
      by blast
    have step: "segment_teams_loop self acc rem = segment_teams_loop self (acc @ [take k rem]) (drop k rem)"
      using False k by (subst segment_teams_loop.simps) (simp add: take_segment_def Let_def)
    have "map length (take k rem # segs) =
            replicate (length rem div k) k @ (if length rem mod k = 0 then [] else [length rem mod k])"
    proof (cases "k \<le> length rem")
      case True
      then have d: "length rem div k = Suc ((length rem - k) div k)"
        using pos by (simp add: le_div_geq)
      have m: "length rem mod k = (length rem - k) mod k"
        using True by (simp add: le_mod_geq)
      show ?thesis using True sizes by (simp add: d m min_def)
    next
      case False
      then have "segs = []" using sizes by simp
      then show ?thesis using False \<open>rem \<noteq> []\<close> by (simp add: min_def)
    qed
    then show ?thesis using run cat step by simp
  qed
qed

text \<open>
  When the loop returns from a non-empty list, the index is positive. And the
  loop depends on the object through \<^verbatim>\<open>take_segment\<close> only.
\<close>

lemma segment_teams_loop_stuck:
  assumes "segment_teams_loop self segmented remaining = Some y"
  shows "remaining = [] \<or> 0 < min (length (participants self)) (length (teams self))"
proof (rule segment_teams_loop.raw_induct
    [where P = "\<lambda>self segmented remaining y.
                  remaining = [] \<or> 0 < min (length (participants self)) (length (teams self))",
      OF _ assms])
  fix loop :: "'a init_args_scheme \<Rightarrow> string list list \<Rightarrow> string list \<Rightarrow> string list list option"
  fix self segmented remaining y
  assume ih: "\<And>self segmented remaining y. loop self segmented remaining = Some y \<Longrightarrow>
                remaining = [] \<or> 0 < min (length (participants self)) (length (teams self))"
    and step: "(if 0 < length remaining
                then case take_segment self remaining of
                       (current_segment, remaining') \<Rightarrow>
                         loop self (segmented @ [current_segment]) remaining'
                else Some segmented) = Some y"
  show "remaining = [] \<or> 0 < min (length (participants self)) (length (teams self))"
  proof (cases "remaining = []")
    case True
    then show ?thesis by simp
  next
    case False
    obtain seg rest where ts: "take_segment self remaining = (seg, rest)"
      by (cases "take_segment self remaining")
    with step False have "loop self (segmented @ [seg]) rest = Some y" by simp
    from ih[OF this] have "rest = [] \<or> 0 < min (length (participants self)) (length (teams self))" .
    then show ?thesis
      using ts False by (auto simp: take_segment_def Let_def)
  qed
qed

lemma segment_teams_loop_transfer:
  assumes same: "take_segment self = take_segment self'"
    and run: "segment_teams_loop self segmented remaining = Some y"
  shows "segment_teams_loop self' segmented remaining = Some y"
proof -
  have "take_segment self = take_segment self' \<longrightarrow>
          segment_teams_loop self' segmented remaining = Some y"
  proof (rule segment_teams_loop.raw_induct
    [where P = "\<lambda>s segmented remaining y.
                  take_segment s = take_segment self' \<longrightarrow> segment_teams_loop self' segmented remaining = Some y",
      OF _ run])
  fix loop :: "'a init_args_scheme \<Rightarrow> string list list \<Rightarrow> string list \<Rightarrow> string list list option"
  fix s segmented remaining y
  assume ih: "\<And>s segmented remaining y. loop s segmented remaining = Some y \<Longrightarrow>
                take_segment s = take_segment self' \<longrightarrow> segment_teams_loop self' segmented remaining = Some y"
    and step: "(if 0 < length remaining
                then case take_segment s remaining of
                       (current_segment, remaining') \<Rightarrow>
                         loop s (segmented @ [current_segment]) remaining'
                else Some segmented) = Some y"
  show "take_segment s = take_segment self' \<longrightarrow> segment_teams_loop self' segmented remaining = Some y"
  proof
    assume eq: "take_segment s = take_segment self'"
    show "segment_teams_loop self' segmented remaining = Some y"
    proof (cases "remaining = []")
      case True
      with step show ?thesis by (simp add: segment_teams_loop.simps)
    next
      case False
      obtain seg rest where ts: "take_segment s remaining = (seg, rest)"
        by (cases "take_segment s remaining")
      with step False have "loop s (segmented @ [seg]) rest = Some y" by simp
      from ih[OF this] eq have "segment_teams_loop self' (segmented @ [seg]) rest = Some y" by simp
      moreover have "take_segment self' remaining = (seg, rest)" using ts eq by simp
      ultimately show ?thesis using False
        by (subst segment_teams_loop.simps) simp
    qed
  qed
  qed
  with same show ?thesis by simp
qed

lemma segment_teams_loop_cong:
  assumes "take_segment self = take_segment self'"
  shows "segment_teams_loop self segmented remaining = segment_teams_loop self' segmented remaining"
proof (cases "segment_teams_loop self segmented remaining")
  case (Some y)
  then show ?thesis using segment_teams_loop_transfer[OF assms] by simp
next
  case None
  show ?thesis
  proof (cases "segment_teams_loop self' segmented remaining")
    case None
    with \<open>segment_teams_loop self segmented remaining = None\<close> show ?thesis by simp
  next
    case (Some y)
    then have "segment_teams_loop self segmented remaining = Some y"
      using segment_teams_loop_transfer[OF assms[symmetric]] by simp
    with None show ?thesis by simp
  qed
qed

subsection \<open>The dict operations\<close>

lemma map_of_dict_set: "map_of (dict_set k v d) = (map_of d)(k \<mapsto> v)"
  by (induction d) (auto simp: fun_eq_iff)

lemma keys_dict_set:
  "map fst (dict_set k v d) = (if k \<in> fst ` set d then map fst d else map fst d @ [k])"
  by (induction d) auto

lemma distinct_keys_dict_set:
  "distinct (map fst d) \<Longrightarrow> distinct (map fst (dict_set k v d))"
  by (simp add: keys_dict_set)

lemma items_dict_set:
  "map_of d k = Some v \<Longrightarrow>
   mset (concat (map snd (dict_set k (v @ [x]) d))) = mset (concat (map snd d)) + {#x#}"
  by (induction d) (auto split: if_splits)

lemma dict_append_Inr:
  "dict_append d p x = Inr d' \<longleftrightarrow> (\<exists>v. map_of d p = Some v \<and> d' = dict_set p (v @ [x]) d)"
  by (auto simp: dict_append_def dict_get_def split: option.splits)

lemma map_of_eq_None_keys: "map_of d p = None \<longleftrightarrow> p \<notin> fst ` set d"
  by (simp add: map_of_eq_None_iff)

subsection \<open>The dict built by the constructor\<close>

lemma keys_empty_assignments:
  "distinct (map fst d) \<Longrightarrow>
   map fst (empty_assignments ps d) = map fst d @ rev (remdups (rev (filter (\<lambda>p. p \<notin> fst ` set d) ps)))"
proof (induction ps arbitrary: d)
  case Nil
  then show ?case by simp
next
  case (Cons p ps)
  show ?case
  proof (cases "p \<in> fst ` set d")
    case True
    then have "filter (\<lambda>q. q \<notin> fst ` set (dict_set p [] d)) ps = filter (\<lambda>q. q \<notin> fst ` set d) ps"
      using keys_dict_set[of p "[]" d] by (metis list.set_map)
    then show ?thesis
      using True Cons.IH[of "dict_set p [] d"] Cons.prems
      by (simp add: distinct_keys_dict_set keys_dict_set)
  next
    case False
    have k: "map fst (dict_set p [] d) = map fst d @ [p]" using False by (simp add: keys_dict_set)
    then have s: "fst ` set (dict_set p [] d) = insert p (fst ` set d)"
      by (metis Un_insert_right append_Nil2 list.set_map list.simps(15) set_append)
    have f: "filter (\<lambda>q. q \<notin> fst ` set (dict_set p [] d)) ps
               = filter (\<lambda>q. q \<noteq> p) (filter (\<lambda>q. q \<notin> fst ` set d) ps)"
      by (simp add: s conj_commute)
    have r: "rev (remdups (rev (p # xs))) = p # rev (remdups (rev (filter (\<lambda>q. q \<noteq> p) xs)))" for xs :: "string list"
    proof -
      have "remdups (ys @ [p]) = remdups (filter (\<lambda>q. q \<noteq> p) ys) @ [p]" for ys :: "string list"
        by (induction ys) auto
      from this[of "rev xs"] show ?thesis by (simp add: rev_filter)
    qed
    have "map fst (empty_assignments (p # ps) d) = map fst (empty_assignments ps (dict_set p [] d))"
      by simp
    also have "\<dots> = map fst (dict_set p [] d) @
                          rev (remdups (rev (filter (\<lambda>q. q \<notin> fst ` set (dict_set p [] d)) ps)))"
      by (rule Cons.IH) (simp add: distinct_keys_dict_set Cons.prems)
    also have "\<dots> = (map fst d @ [p]) @
                          rev (remdups (rev (filter (\<lambda>q. q \<noteq> p) (filter (\<lambda>q. q \<notin> fst ` set d) ps))))"
      by (simp only: k f)
    also have "\<dots> = map fst d @ rev (remdups (rev (p # filter (\<lambda>q. q \<notin> fst ` set d) ps)))"
      by (simp only: r append_assoc append_Cons append_Nil)
    also have "p # filter (\<lambda>q. q \<notin> fst ` set d) ps = filter (\<lambda>q. q \<notin> fst ` set d) (p # ps)"
      using False by simp
    finally show ?thesis .
  qed
qed

lemma values_empty_assignments:
  "\<forall>e \<in> set d. snd e = [] \<Longrightarrow> \<forall>e \<in> set (empty_assignments ps d). snd e = []"
proof (induction ps arbitrary: d)
  case Nil
  then show ?case by simp
next
  case (Cons p ps)
  have "\<forall>e \<in> set (dict_set p [] d). snd e = []"
    using Cons.prems by (induction d) auto
  from Cons.IH[OF this] show ?case by simp
qed

lemma distinct_empty_assignments:
  "distinct (map fst d) \<Longrightarrow> distinct (map fst (empty_assignments ps d))"
  by (induction ps arbitrary: d) (auto simp: distinct_keys_dict_set)

subsection \<open>One draw\<close>

lemma assign_team_Inr:
  "assign_team g team (pool, d, k) = Inr st' \<longleftrightarrow>
     pool \<noteq> [] \<and>
     (\<exists>v. map_of d (pool ! (g k mod length pool)) = Some v \<and>
          st' = (remove1 (pool ! (g k mod length pool)) pool,
                 dict_set (pool ! (g k mod length pool)) (v @ [team]) d, Suc k))"
  by (auto simp: assign_team_def choice_def list_remove_def dict_append_def dict_get_def
           split: sum.splits option.splits)

lemma assign_team_ok:
  assumes "pool \<noteq> []" "set pool \<subseteq> fst ` set d"
  shows "\<exists>st'. assign_team g team (pool, d, k) = Inr st'"
proof -
  have "pool ! (g k mod length pool) \<in> set pool" using assms(1) by simp
  then have "map_of d (pool ! (g k mod length pool)) \<noteq> None"
    using assms(2) by (auto simp: map_of_eq_None_iff)
  then show ?thesis using assms(1) by (auto simp: assign_team_Inr)
qed

lemma assign_loop_Cons_Inr:
  assumes "assign_loop g (t # rest) (pool, d, k) = Inr r"
  obtains p v where "p \<in> set pool" "map_of d p = Some v"
    "assign_team g t (pool, d, k) = Inr (remove1 p pool, dict_set p (v @ [t]) d, Suc k)"
    "assign_loop g rest (remove1 p pool, dict_set p (v @ [t]) d, Suc k) = Inr r"
proof -
  from assms obtain st' where a: "assign_team g t (pool, d, k) = Inr st'"
    and l: "assign_loop g rest st' = Inr r"
    by (auto split: sum.splits)
  let ?p = "pool ! (g k mod length pool)"
  from a obtain v where ne: "pool \<noteq> []" and v: "map_of d ?p = Some v"
    and st': "st' = (remove1 ?p pool, dict_set ?p (v @ [t]) d, Suc k)"
    by (auto simp: assign_team_Inr)
  from ne have "?p \<in> set pool" by simp
  then show ?thesis using v a l st' by (intro that[of ?p v]) simp_all
qed

subsection \<open>The draws of a segment\<close>

lemma assign_loop_ok:
  "length seg \<le> length pool \<Longrightarrow> set pool \<subseteq> fst ` set d \<Longrightarrow>
   \<exists>r. assign_loop g seg (pool, d, k) = Inr r"
proof (induction seg arbitrary: pool d k)
  case Nil
  then show ?case by simp
next
  case (Cons t rest)
  then have ne: "pool \<noteq> []" by auto
  from assign_team_ok[OF ne Cons.prems(2)] obtain st' where
    a: "assign_team g t (pool, d, k) = Inr st'" by blast
  then obtain v where st': "st' = (remove1 (pool ! (g k mod length pool)) pool,
                 dict_set (pool ! (g k mod length pool)) (v @ [t]) d, Suc k)"
    by (auto simp: assign_team_Inr)
  let ?p = "pool ! (g k mod length pool)"
  have "?p \<in> set pool" using ne by simp
  then have len: "length rest \<le> length (remove1 ?p pool)"
    using Cons.prems(1) by (simp add: length_remove1)
  have "set (remove1 ?p pool) \<subseteq> fst ` set (dict_set ?p (v @ [t]) d)"
  proof -
    have "set (remove1 ?p pool) \<subseteq> set pool" by (rule set_remove1_subset)
    moreover have "fst ` set d \<subseteq> fst ` set (dict_set ?p (v @ [t]) d)"
      using keys_dict_set[of ?p "v @ [t]" d] by (metis list.set_map set_append sup_ge1 order_refl)
    ultimately show ?thesis using Cons.prems(2) by blast
  qed
  from Cons.IH[OF len this] a st' show ?case by simp
qed

lemma assign_loop_draws:
  "assign_loop g seg (pool, d, k) = Inr (pool', d', k') \<Longrightarrow>
   k' = k + length seg \<and> length pool' + length seg = length pool \<and> mset pool' \<subseteq># mset pool"
proof (induction seg arbitrary: pool d k)
  case Nil
  then show ?case by simp
next
  case (Cons t rest)
  from Cons.prems obtain p v where p: "p \<in> set pool"
    and l: "assign_loop g rest (remove1 p pool, dict_set p (v @ [t]) d, Suc k) = Inr (pool', d', k')"
    by (rule assign_loop_Cons_Inr)
  from Cons.IH[OF l] p show ?case
    by (auto simp: length_remove1 intro: subset_mset.order_trans)
      (metis One_nat_def Suc_pred add_Suc_shift length_pos_if_in_set)
qed

lemma assign_loop_keys:
  "assign_loop g seg (pool, d, k) = Inr (pool', d', k') \<Longrightarrow> map fst d' = map fst d"
proof (induction seg arbitrary: pool d k)
  case Nil
  then show ?case by simp
next
  case (Cons t rest)
  from Cons.prems obtain p v where v: "map_of d p = Some v"
    and l: "assign_loop g rest (remove1 p pool, dict_set p (v @ [t]) d, Suc k) = Inr (pool', d', k')"
    by (rule assign_loop_Cons_Inr)
  from v have "p \<in> fst ` set d" by (metis map_of_eq_None_iff option.distinct(1))
  with Cons.IH[OF l] show ?case by (simp add: keys_dict_set)
qed

lemma assign_loop_items:
  "assign_loop g seg (pool, d, k) = Inr (pool', d', k') \<Longrightarrow>
   mset (concat (map snd d')) = mset (concat (map snd d)) + mset seg"
proof (induction seg arbitrary: pool d k)
  case Nil
  then show ?case by simp
next
  case (Cons t rest)
  from Cons.prems obtain p v where v: "map_of d p = Some v"
    and l: "assign_loop g rest (remove1 p pool, dict_set p (v @ [t]) d, Suc k) = Inr (pool', d', k')"
    by (rule assign_loop_Cons_Inr)
  from Cons.IH[OF l] show ?case by (simp add: items_dict_set[OF v])
qed

lemma assign_loop_added:
  "assign_loop g seg (pool, d, k) = Inr (pool', d', k') \<Longrightarrow>
   \<exists>added. map_of d' q = map_option (\<lambda>v. v @ added) (map_of d q) \<and>
           mset added \<subseteq># mset seg \<and>
           length added + count (mset pool') q = count (mset pool) q"
proof (induction seg arbitrary: pool d k)
  case Nil
  then show ?case by (auto simp: option.map_ident)
next
  case (Cons t rest)
  from Cons.prems obtain p v where p: "p \<in> set pool" and v: "map_of d p = Some v"
    and l: "assign_loop g rest (remove1 p pool, dict_set p (v @ [t]) d, Suc k) = Inr (pool', d', k')"
    by (rule assign_loop_Cons_Inr)
  from Cons.IH[OF l] obtain added where
    m: "map_of d' q = map_option (\<lambda>v. v @ added) (map_of (dict_set p (v @ [t]) d) q)"
    and sub: "mset added \<subseteq># mset rest"
    and cnt: "length added + count (mset pool') q = count (mset (remove1 p pool)) q"
    by blast
  show ?case
  proof (cases "q = p")
    case True
    have "0 < count (mset pool) p" using p by simp
    then have "length (t # added) + count (mset pool') q = count (mset pool) q"
      using cnt True by simp
    moreover have "map_of d' q = map_option (\<lambda>v. v @ (t # added)) (map_of d q)"
      using m v True by (simp add: map_of_dict_set)
    moreover have "mset (t # added) \<subseteq># mset (t # rest)" using sub by simp
    ultimately show ?thesis by blast
  next
    case False
    have "length added + count (mset pool') q = count (mset pool) q"
      using cnt False by simp
    moreover have "map_of d' q = map_option (\<lambda>v. v @ added) (map_of d q)"
      using m False by (simp add: map_of_dict_set)
    moreover have "mset added \<subseteq># mset (t # rest)"
      using sub by (simp add: subset_mset.order_trans)
    ultimately show ?thesis by blast
  qed
qed

lemma assign_loop_append:
  "assign_loop g (xs @ ys) st =
     (case assign_loop g xs st of Inl e \<Rightarrow> Inl e | Inr st' \<Rightarrow> assign_loop g ys st')"
  by (induction xs arbitrary: st) (auto split: sum.splits)

subsection \<open>One segment, on the object\<close>

lemma assign_from_segments_Inr:
  assumes "assign_from_segments g seg (s, k) = Inr (s', k')"
  obtains pool d' where "assign_loop g seg (participants s, assignments s, k) = Inr (pool, d', k')"
    "s' = s\<lparr>assignments := d'\<rparr>"
  using assms by (auto simp: assign_from_segments_def split: sum.splits)

lemma assign_from_segments_ok:
  assumes "length seg \<le> length (participants s)" "set (participants s) \<subseteq> fst ` set (assignments s)"
  shows "\<exists>s' k'. assign_from_segments g seg (s, k) = Inr (s', k')"
proof -
  from assign_loop_ok[OF assms] obtain r where
    "assign_loop g seg (participants s, assignments s, k) = Inr r" by blast
  then show ?thesis by (cases r) (simp add: assign_from_segments_def)
qed

lemma assign_from_segments_frame:
  assumes "assign_from_segments g seg (s, k) = Inr (s', k')"
  shows "participants s' = participants s" "teams s' = teams s"
    "segmented_teams s' = segmented_teams s"
    "map fst (assignments s') = map fst (assignments s)"
    "k' = k + length seg"
    "mset (concat (map snd (assignments s'))) = mset (concat (map snd (assignments s))) + mset seg"
proof -
  from assms obtain pool d' where
    l: "assign_loop g seg (participants s, assignments s, k) = Inr (pool, d', k')"
    and s': "s' = s\<lparr>assignments := d'\<rparr>"
    by (rule assign_from_segments_Inr)
  show "participants s' = participants s" "teams s' = teams s"
    "segmented_teams s' = segmented_teams s"
    using s' by simp_all
  show "map fst (assignments s') = map fst (assignments s)"
    using assign_loop_keys[OF l] s' by simp
  show "k' = k + length seg" using assign_loop_draws[OF l] by simp
  show "mset (concat (map snd (assignments s'))) = mset (concat (map snd (assignments s))) + mset seg"
    using assign_loop_items[OF l] s' by simp
qed

lemma assign_from_segments_added:
  assumes "assign_from_segments g seg (s, k) = Inr (s', k')"
  shows "\<exists>added. map_of (assignments s') p = map_option (\<lambda>v. v @ added) (map_of (assignments s) p) \<and>
           mset added \<subseteq># mset seg \<and>
           length added \<le> count (mset (participants s)) p \<and>
           (length seg = length (participants s) \<longrightarrow> length added = count (mset (participants s)) p)"
proof -
  from assms obtain pool d' where
    l: "assign_loop g seg (participants s, assignments s, k) = Inr (pool, d', k')"
    and s': "s' = s\<lparr>assignments := d'\<rparr>"
    by (rule assign_from_segments_Inr)
  from assign_loop_added[OF l, of p] obtain added where
    m: "map_of d' p = map_option (\<lambda>v. v @ added) (map_of (assignments s) p)"
    and sub: "mset added \<subseteq># mset seg"
    and cnt: "length added + count (mset pool) p = count (mset (participants s)) p"
    by blast
  have "length seg = length (participants s) \<Longrightarrow> pool = []"
    using assign_loop_draws[OF l] by simp
  then have "length seg = length (participants s) \<longrightarrow> length added = count (mset (participants s)) p"
    using cnt by auto
  moreover have "length added \<le> count (mset (participants s)) p" using cnt by simp
  ultimately show ?thesis using m sub s' by auto
qed

subsection \<open>All segments\<close>

lemma assign_teams_loop_append:
  "assign_teams_loop g (xs @ ys) st =
     (case assign_teams_loop g xs st of Inl e \<Rightarrow> Inl e | Inr st' \<Rightarrow> assign_teams_loop g ys st')"
  by (induction xs arbitrary: st) (auto split: sum.splits)

lemma assign_teams_loop_frame:
  "assign_teams_loop g segs (s, k) = Inr (s', k') \<Longrightarrow>
   participants s' = participants s \<and> teams s' = teams s \<and>
   segmented_teams s' = segmented_teams s \<and>
   map fst (assignments s') = map fst (assignments s) \<and>
   k' = k + length (concat segs) \<and>
   mset (concat (map snd (assignments s'))) = mset (concat (map snd (assignments s))) + mset (concat segs)"
proof (induction segs arbitrary: s k)
  case Nil
  then show ?case by simp
next
  case (Cons seg rest)
  from Cons.prems obtain s1 k1 where
    a: "assign_from_segments g seg (s, k) = Inr (s1, k1)"
    and l: "assign_teams_loop g rest (s1, k1) = Inr (s', k')"
    by (auto split: sum.splits)
  from Cons.IH[OF l] assign_from_segments_frame[OF a] show ?case by simp
qed

lemma assign_teams_loop_ok:
  "\<forall>seg \<in> set segs. length seg \<le> length (participants s) \<Longrightarrow>
   set (participants s) \<subseteq> fst ` set (assignments s) \<Longrightarrow>
   \<exists>s' k'. assign_teams_loop g segs (s, k) = Inr (s', k')"
proof (induction segs arbitrary: s k)
  case Nil
  then show ?case by simp
next
  case (Cons seg rest)
  from Cons.prems have "length seg \<le> length (participants s)" by simp
  from assign_from_segments_ok[OF this Cons.prems(2)] obtain s1 k1 where
    a: "assign_from_segments g seg (s, k) = Inr (s1, k1)" by blast
  note f = assign_from_segments_frame[OF a]
  have "\<forall>seg \<in> set rest. length seg \<le> length (participants s1)"
    using Cons.prems(1) f(1) by simp
  moreover have "set (participants s1) \<subseteq> fst ` set (assignments s1)"
    using Cons.prems(2) f(1) f(4) by (metis list.set_map)
  ultimately obtain s' k' where "assign_teams_loop g rest (s1, k1) = Inr (s', k')"
    using Cons.IH by blast
  with a show ?case by simp
qed

text \<open>
  The list of a participant grows by one part for each segment; the state after the
  first \<open>i\<close> segments is the run of the loop on \<open>take i segs\<close>.
\<close>

lemma assign_teams_loop_parts:
  assumes fit: "\<forall>seg \<in> set segs. length seg \<le> length (participants s)"
    and keys: "set (participants s) \<subseteq> fst ` set (assignments s)"
    and v: "map_of (assignments s) p = Some v"
  shows "\<exists>parts. length parts = length segs \<and>
           (\<forall>i<length segs. mset (parts ! i) \<subseteq># mset (segs ! i) \<and>
                length (parts ! i) \<le> count (mset (participants s)) p \<and>
                (length (segs ! i) = length (participants s) \<longrightarrow>
                   length (parts ! i) = count (mset (participants s)) p)) \<and>
           (\<forall>i\<le>length segs. \<exists>si ki.
                assign_teams_loop g (take i segs) (s, k) = Inr (si, ki) \<and>
                map_of (assignments si) p = Some (v @ concat (take i parts)))"
  using fit
proof (induction segs rule: rev_induct)
  case Nil
  show ?case using v by simp
next
  case (snoc seg segs)
  then obtain parts where len: "length parts = length segs"
    and sub: "\<forall>i<length segs. mset (parts ! i) \<subseteq># mset (segs ! i) \<and>
                length (parts ! i) \<le> count (mset (participants s)) p \<and>
                (length (segs ! i) = length (participants s) \<longrightarrow>
                   length (parts ! i) = count (mset (participants s)) p)"
    and runs: "\<forall>i\<le>length segs. \<exists>si ki.
                assign_teams_loop g (take i segs) (s, k) = Inr (si, ki) \<and>
                map_of (assignments si) p = Some (v @ concat (take i parts))"
    by auto
  from runs obtain sn kn where
    n: "assign_teams_loop g segs (s, k) = Inr (sn, kn)"
    and vn: "map_of (assignments sn) p = Some (v @ concat parts)"
    using len by force
  note f = assign_teams_loop_frame[OF n]
  have "length seg \<le> length (participants sn)" using snoc.prems f by simp
  moreover have "set (participants sn) \<subseteq> fst ` set (assignments sn)"
    using keys f by (metis list.set_map)
  ultimately obtain s' k' where a: "assign_from_segments g seg (sn, kn) = Inr (s', k')"
    using assign_from_segments_ok by blast
  from assign_from_segments_added[OF a, of p] obtain added where
    m: "map_of (assignments s') p = Some ((v @ concat parts) @ added)"
    and asub: "mset added \<subseteq># mset seg"
    and cnt: "length added \<le> count (mset (participants s)) p"
    and full: "length seg = length (participants s) \<longrightarrow> length added = count (mset (participants s)) p"
    using vn f by auto
  let ?parts = "parts @ [added]"
  have 1: "length ?parts = length (segs @ [seg])" using len by simp
  have 2: "\<forall>i<length (segs @ [seg]). mset (?parts ! i) \<subseteq># mset ((segs @ [seg]) ! i) \<and>
             length (?parts ! i) \<le> count (mset (participants s)) p \<and>
             (length ((segs @ [seg]) ! i) = length (participants s) \<longrightarrow>
                length (?parts ! i) = count (mset (participants s)) p)"
    using sub asub cnt full len by (auto simp: nth_append less_Suc_eq)
  have 3: "\<forall>i\<le>length (segs @ [seg]). \<exists>si ki.
             assign_teams_loop g (take i (segs @ [seg])) (s, k) = Inr (si, ki) \<and>
             map_of (assignments si) p = Some (v @ concat (take i ?parts))"
  proof (intro allI impI)
    fix i assume i: "i \<le> length (segs @ [seg])"
    show "\<exists>si ki. assign_teams_loop g (take i (segs @ [seg])) (s, k) = Inr (si, ki) \<and>
             map_of (assignments si) p = Some (v @ concat (take i ?parts))"
    proof (cases "i \<le> length segs")
      case True
      then show ?thesis using runs len by simp
    next
      case False
      then have "i = Suc (length segs)" using i by simp
      then show ?thesis using n a m len by (simp add: assign_teams_loop_append)
    qed
  qed
  from 1 2 3 show ?case by blast
qed

subsection \<open>The result of segmentation\<close>

lemma segment_teams_result:
  assumes "participants self \<noteq> [] \<or> teams self = []"
  shows "\<exists>segs. segment_teams self = Some segs \<and> concat segs = teams self \<and>
           map length segs =
             replicate (length (teams self) div min (length (participants self)) (length (teams self)))
                       (min (length (participants self)) (length (teams self))) @
             (if length (teams self) mod min (length (participants self)) (length (teams self)) = 0
              then []
              else [length (teams self) mod min (length (participants self)) (length (teams self))])"
proof (cases "teams self = []")
  case True
  then show ?thesis by (simp add: segment_teams_def segment_teams_loop.simps)
next
  case False
  with assms have "0 < min (length (participants self)) (length (teams self))" by simp
  from segment_teams_loop_sizes[OF refl this, of "[]" "teams self"] show ?thesis
    by (simp add: segment_teams_def)
qed

lemma sizes_shape:
  fixes k q r :: nat
  assumes L: "L = replicate q k @ (if r = 0 then [] else [r])"
  shows "\<forall>i. Suc i < length L \<longrightarrow> L ! i = k"
    and "L \<noteq> [] \<longrightarrow> last L = (if r = 0 then k else r)"
proof -
  show "\<forall>i. Suc i < length L \<longrightarrow> L ! i = k"
    using L by (auto simp: nth_append split: if_splits)
  show "L \<noteq> [] \<longrightarrow> last L = (if r = 0 then k else r)"
    using L by (auto split: if_splits)
qed

lemma segments_fit:
  assumes "segment_teams self = Some segs" "participants self \<noteq> [] \<or> teams self = []"
  shows "\<forall>seg \<in> set segs. length seg \<le> length (participants self)"
proof -
  define k where "k = min (length (participants self)) (length (teams self))"
  define n where "n = length (teams self)"
  from segment_teams_result[OF assms(2)] assms(1) have
    sizes: "map length segs = replicate (n div k) k @ (if n mod k = 0 then [] else [n mod k])"
    by (auto simp: k_def n_def)
  have k: "k \<le> length (participants self)" by (simp add: k_def)
  have "k = 0 \<Longrightarrow> n = 0"
    using assms(2) by (auto simp: k_def n_def min_def split: if_splits)
  then have "n mod k \<le> k"
    by (cases "k = 0") (simp_all add: less_imp_le)
  then have "\<forall>x \<in> set (map length segs). x \<le> k"
    unfolding sizes by (auto split: if_splits)
  with k show ?thesis by auto
qed

subsection \<open>The constructed object\<close>

lemma Sweepstake_result:
  assumes "ps \<noteq> [] \<or> ts = []"
  shows "\<exists>segs. segment_teams \<lparr>participants = ps, teams = ts\<rparr> = Some segs \<and>
           Sweepstake ps ts = Some \<lparr>participants = ps, teams = ts, segmented_teams = segs,
                                    assignments = empty_assignments ps []\<rparr>"
proof -
  from segment_teams_result[of "\<lparr>participants = ps, teams = ts\<rparr>"] assms
  obtain segs where "segment_teams \<lparr>participants = ps, teams = ts\<rparr> = Some segs" by auto
  then show ?thesis by (simp add: Sweepstake_def post_init_def)
qed

lemma keys_constructed:
  "map fst (empty_assignments ps []) = rev (remdups (rev ps))"
  using keys_empty_assignments[of "[]" ps] by simp

lemma set_keys_constructed: "fst ` set (empty_assignments ps []) = set ps"
proof -
  have "set (map fst (empty_assignments ps [])) = set ps"
    by (simp only: keys_constructed set_rev set_remdups)
  then show ?thesis by simp
qed

lemma lookup_constructed:
  assumes "p \<in> set ps"
  shows "map_of (empty_assignments ps []) p = Some []"
proof -
  from assms have "p \<in> fst ` set (empty_assignments ps [])" by (simp add: set_keys_constructed)
  then obtain v where "map_of (empty_assignments ps []) p = Some v"
    by (metis map_of_eq_None_iff not_Some_eq)
  moreover from this have "(p, v) \<in> set (empty_assignments ps [])" by (rule map_of_SomeD)
  then have "v = []" using values_empty_assignments[of "[]" ps] by auto
  ultimately show ?thesis by simp
qed

lemma items_constructed: "concat (map snd (empty_assignments ps [])) = []"
  using values_empty_assignments[of "[]" ps] by auto

text \<open>The run of a constructed object.\<close>

lemma run_constructed:
  assumes "ps \<noteq> [] \<or> ts = []"
  obtains segs where
    "segment_teams \<lparr>participants = ps, teams = ts\<rparr> = Some segs"
    "Sweepstake ps ts = Some \<lparr>participants = ps, teams = ts, segmented_teams = segs,
                                    assignments = empty_assignments ps []\<rparr>"
    "concat segs = ts"
    "\<forall>seg \<in> set segs. length seg \<le> length ps"
proof -
  from Sweepstake_result[OF assms] obtain segs where
    s: "segment_teams \<lparr>participants = ps, teams = ts\<rparr> = Some segs"
    and c: "Sweepstake ps ts = Some \<lparr>participants = ps, teams = ts, segmented_teams = segs,
                                    assignments = empty_assignments ps []\<rparr>"
    by blast
  have "concat segs = ts"
    using segment_teams_result[of "\<lparr>participants = ps, teams = ts\<rparr>"] assms s by auto
  moreover have "\<forall>seg \<in> set segs. length seg \<le> length ps"
    using segments_fit[OF s] assms by simp
  ultimately show ?thesis using s c that by blast
qed

subsection \<open>Auxiliary facts\<close>

lemma unique_holder:
  "distinct (concat (map snd d)) \<Longrightarrow> e1 \<in> set d \<Longrightarrow> e2 \<in> set d \<Longrightarrow>
   t \<in> set (snd e1) \<Longrightarrow> t \<in> set (snd e2) \<Longrightarrow> e1 = e2"
  by (induction d) auto

lemma assign_teams_loop_step:
  assumes "i < length segs"
  shows "assign_teams_loop g (take (Suc i) segs) st =
           (case assign_teams_loop g (take i segs) st of
              Inl e \<Rightarrow> Inl e
            | Inr st' \<Rightarrow> assign_from_segments g (segs ! i) st')"
proof -
  have "take (Suc i) segs = take i segs @ [segs ! i]"
    using assms by (rule take_Suc_conv_app_nth)
  then show ?thesis
    by (simp add: assign_teams_loop_append split: sum.splits)
qed

lemma length_concat_singletons:
  "\<forall>x \<in> set xss. length x = 1 \<Longrightarrow> length (concat xss) = length xss"
  by (induction xss) auto

subsection \<open>Claim C1: no participants, some teams\<close>

text \<open>
  C1 says that constructing the object with no participants and at least one team fails
  with an explicit \<^verbatim>\<open>InvalidInput\<close> error. The code has no such check:
  \<^verbatim>\<open>segment_index\<close> is \<open>0\<close>, every iteration of the \<^verbatim>\<open>while\<close> loop of
  \<^verbatim>\<open>segment_teams\<close> appends an empty segment and leaves \<^verbatim>\<open>remaining_teams\<close> as it
  was, and the loop is never left. At participants \<open>[]\<close> and teams \<open>[T1]\<close> the
  constructor does not return: neither an object nor an error.
\<close>

theorem Sweepstake_no_participants_never_returns:
  "Sweepstake [] [''T1''] = None"
proof (cases "Sweepstake [] [''T1'']")
  case None
  then show ?thesis .
next
  case (Some s)
  then obtain y where
    "segment_teams_loop \<lparr>participants = [], teams = [''T1'']\<rparr> [] [''T1''] = Some y"
    by (auto simp: Sweepstake_def post_init_def segment_teams_def split: option.splits)
  from segment_teams_loop_stuck[OF this] show ?thesis by simp
qed

subsection \<open>Claim C4: the segments\<close>

text \<open>
  C4: with at least one participant, \<^verbatim>\<open>segment_teams\<close> returns. Its segments,
  concatenated in order, are the teams; every segment but the last has
  \<open>min P N\<close> teams, and the last has between \<open>1\<close> and \<open>min P N\<close>; for 3
  participants and 7 teams the sizes are \<open>[3, 3, 1]\<close>.
\<close>

theorem segment_teams_chunks:
  assumes "participants self \<noteq> []"
  shows "\<exists>segs. segment_teams self = Some segs \<and>
           concat segs = teams self \<and>
           (\<forall>i. Suc i < length segs \<longrightarrow>
                length (segs ! i) = min (length (participants self)) (length (teams self))) \<and>
           (segs \<noteq> [] \<longrightarrow>
              1 \<le> length (last segs) \<and>
              length (last segs) \<le> min (length (participants self)) (length (teams self))) \<and>
           (length (participants self) = 3 \<and> length (teams self) = 7 \<longrightarrow>
              map length segs = [3, 3, 1])"
proof -
  define k where "k = min (length (participants self)) (length (teams self))"
  define n where "n = length (teams self)"
  from segment_teams_result[of self] assms obtain segs where
    run: "segment_teams self = Some segs" and cat: "concat segs = teams self"
    and sizes: "map length segs = replicate (n div k) k @ (if n mod k = 0 then [] else [n mod k])"
    by (auto simp: k_def n_def)
  note shape = sizes_shape[OF sizes]
  have full: "\<forall>i. Suc i < length segs \<longrightarrow> length (segs ! i) = k"
  proof (intro allI impI)
    fix i assume i: "Suc i < length segs"
    then have "map length segs ! i = k" using shape(1) by simp
    then show "length (segs ! i) = k" using i by simp
  qed
  have k0: "k = 0 \<Longrightarrow> segs = []"
  proof -
    assume "k = 0"
    then have "n = 0" using assms by (auto simp: k_def n_def min_def split: if_splits)
    then have "map length segs = []" using sizes by simp
    then show "segs = []" by simp
  qed
  have lst: "segs \<noteq> [] \<longrightarrow> 1 \<le> length (last segs) \<and> length (last segs) \<le> k"
  proof
    assume ne: "segs \<noteq> []"
    then have kpos: "0 < k" using k0 by auto
    have "length (last segs) = last (map length segs)" using ne by (simp add: last_map)
    also have "\<dots> = (if n mod k = 0 then k else n mod k)" using shape(2) ne by simp
    finally have l: "length (last segs) = (if n mod k = 0 then k else n mod k)" .
    have "n mod k < k" using kpos by simp
    then show "1 \<le> length (last segs) \<and> length (last segs) \<le> k"
      using l kpos by (auto split: if_splits)
  qed
  have scen: "length (participants self) = 3 \<and> length (teams self) = 7 \<longrightarrow>
              map length segs = [3, 3, 1]"
  proof
    assume "length (participants self) = 3 \<and> length (teams self) = 7"
    then have "k = 3" "n = 7" by (simp_all add: k_def n_def)
    moreover have "(7::nat) div 3 = 2" "(7::nat) mod 3 = 1" by simp_all
    moreover have "replicate 2 (3::nat) = [3, 3]" by (simp add: numeral_2_eq_2)
    ultimately show "map length segs = [3, 3, 1]" using sizes by simp
  qed
  have "segment_teams self = Some segs \<and> concat segs = teams self \<and>
          (\<forall>i. Suc i < length segs \<longrightarrow> length (segs ! i) = k) \<and>
          (segs \<noteq> [] \<longrightarrow> 1 \<le> length (last segs) \<and> length (last segs) \<le> k) \<and>
          (length (participants self) = 3 \<and> length (teams self) = 7 \<longrightarrow>
             map length segs = [3, 3, 1])"
    using run cat full lst scen by (intro conjI)
  then show ?thesis unfolding k_def by (rule exI)
qed

text \<open>The theorem at three participants and seven teams.\<close>

theorem segment_teams_chunks_witness:
  "\<exists>segs. segment_teams \<lparr>participants = [''A'', ''B'', ''C''],
                  teams = [''T1'', ''T2'', ''T3'', ''T4'', ''T5'', ''T6'', ''T7'']\<rparr> = Some segs \<and>
          concat segs = [''T1'', ''T2'', ''T3'', ''T4'', ''T5'', ''T6'', ''T7''] \<and>
          map length segs = [3, 3, 1]"
proof -
  let ?self = "\<lparr>participants = [''A'', ''B'', ''C''],
                teams = [''T1'', ''T2'', ''T3'', ''T4'', ''T5'', ''T6'', ''T7'']\<rparr>"
  have "participants ?self \<noteq> []" by simp
  from segment_teams_chunks[OF this] obtain segs where
    run: "segment_teams ?self = Some segs" and cat: "concat segs = teams ?self"
    and scen: "length (participants ?self) = 3 \<and> length (teams ?self) = 7 \<longrightarrow>
                 map length segs = [3, 3, 1]"
    by auto
  from scen have "map length segs = [3, 3, 1]" by simp
  with run cat show ?thesis by simp
qed

subsection \<open>Claim C8: segmentation is deterministic\<close>

text \<open>
  C8: \<^verbatim>\<open>segment_teams\<close> takes no random source and returns none, and it reads only
  the length of \<^verbatim>\<open>participants\<close> and the list \<^verbatim>\<open>teams\<close>. Two objects that agree
  on these give the same result (the same segments, or both runs never return),
  whatever their \<^verbatim>\<open>segmented_teams\<close> and \<^verbatim>\<open>assignments\<close> are; and segmenting
  again after \<^verbatim>\<open>assign_teams\<close> has run, under any random source, gives what
  segmenting before it gave.
\<close>

theorem segment_teams_deterministic:
  fixes s1 s2 s s' :: sweepstake
  shows "(length (participants s1) = length (participants s2) \<and> teams s1 = teams s2 \<longrightarrow>
            segment_teams s1 = segment_teams s2) \<and>
         (assign_teams g (s, k) = Inr (s', k') \<longrightarrow> segment_teams s' = segment_teams s)"
proof (intro conjI impI)
  assume a: "length (participants s1) = length (participants s2) \<and> teams s1 = teams s2"
  then have "take_segment s1 = take_segment s2"
    by (simp add: take_segment_def fun_eq_iff)
  from segment_teams_loop_cong[OF this] a show "segment_teams s1 = segment_teams s2"
    by (simp add: segment_teams_def)
next
  assume "assign_teams g (s, k) = Inr (s', k')"
  then have f: "participants s' = participants s \<and> teams s' = teams s"
    using assign_teams_loop_frame[of g "segmented_teams s" s k s' k']
    by (simp add: assign_teams_def)
  then have "take_segment s' = take_segment s"
    by (simp add: take_segment_def fun_eq_iff)
  from segment_teams_loop_cong[OF this] f show "segment_teams s' = segment_teams s"
    by (simp add: segment_teams_def)
qed

text \<open>
  The theorem at two objects with three participants each, different names and different
  assignments, and at a run of \<^verbatim>\<open>assign_teams\<close>.
\<close>

theorem segment_teams_deterministic_witness:
  "segment_teams \<lparr>participants = [''A'', ''B'', ''C''], teams = [''T1'', ''T2'', ''T3'', ''T4''],
                  segmented_teams = [], assignments = []\<rparr>
   = segment_teams \<lparr>participants = [''X'', ''Y'', ''Z''], teams = [''T1'', ''T2'', ''T3'', ''T4''],
                    segmented_teams = [[''T1'', ''T2'', ''T3''], [''T4'']],
                    assignments = [(''X'', [''T2'', ''T4'']), (''Y'', [''T1'']), (''Z'', [''T3''])]\<rparr>
   \<and> segment_teams \<lparr>participants = [''A''], teams = [''T1''],
                    segmented_teams = [[''T1'']], assignments = [(''A'', [''T1''])]\<rparr>
   = segment_teams \<lparr>participants = [''A''], teams = [''T1''],
                    segmented_teams = [[''T1'']], assignments = [(''A'', [])]\<rparr>"
proof -
  let ?s = "\<lparr>participants = [''A''], teams = [''T1''],
              segmented_teams = [[''T1'']], assignments = [(''A'', [])]\<rparr>"
  let ?s' = "\<lparr>participants = [''A''], teams = [''T1''],
              segmented_teams = [[''T1'']], assignments = [(''A'', [''T1''])]\<rparr>"
  have run: "assign_teams first_choice (?s, 0) = Inr (?s', 1)"
    by (simp add: assign_teams_def assign_from_segments_def assign_team_def choice_def
        dict_append_def dict_get_def list_remove_def first_choice_def)
  note t = segment_teams_deterministic
    [of "\<lparr>participants = [''A'', ''B'', ''C''], teams = [''T1'', ''T2'', ''T3'', ''T4''],
                  segmented_teams = [], assignments = []\<rparr>"
        "\<lparr>participants = [''X'', ''Y'', ''Z''], teams = [''T1'', ''T2'', ''T3'', ''T4''],
                    segmented_teams = [[''T1'', ''T2'', ''T3''], [''T4'']],
                    assignments = [(''X'', [''T2'', ''T4'']), (''Y'', [''T1'']), (''Z'', [''T3''])]\<rparr>"
        first_choice ?s 0 ?s' 1]
  from t run show ?thesis by simp
qed

subsection \<open>Claim C7: the constructed object\<close>

text \<open>
  C7: when the constructor returns, which it does whenever there is a participant or
  there is no team (the remaining inputs are those of claim C1), \<^verbatim>\<open>assignments\<close>
  has one key for each distinct name, in the order of the names' first occurrences
  (\<open>rev (remdups (rev ps))\<close>: \<open>remdups\<close> keeps last occurrences), and every value is
  the empty list. For participants \<open>[A]\<close> and no teams the object has the dict
  \<open>{A: []}\<close> and no segments, and \<^verbatim>\<open>assign_teams\<close> makes no draw and changes nothing.
\<close>

theorem Sweepstake_initial_assignments:
  "(ps \<noteq> [] \<or> ts = [] \<longrightarrow>
      (\<exists>s. Sweepstake ps ts = Some s \<and> participants s = ps \<and> teams s = ts \<and>
           map fst (assignments s) = rev (remdups (rev ps)) \<and>
           distinct (map fst (assignments s)) \<and>
           set (map fst (assignments s)) = set ps \<and>
           (\<forall>e \<in> set (assignments s). snd e = []))) \<and>
   Sweepstake [''A''] [] =
     Some \<lparr>participants = [''A''], teams = [], segmented_teams = [],
           assignments = [(''A'', [])]\<rparr> \<and>
   assign_teams g (\<lparr>participants = [''A''], teams = [], segmented_teams = [],
                    assignments = [(''A'', [])]\<rparr>, k) =
     Inr (\<lparr>participants = [''A''], teams = [], segmented_teams = [],
           assignments = [(''A'', [])]\<rparr>, k)"
proof (intro conjI impI)
  assume a: "ps \<noteq> [] \<or> ts = []"
  from Sweepstake_result[OF a] obtain segs where
    c: "Sweepstake ps ts = Some \<lparr>participants = ps, teams = ts, segmented_teams = segs,
                                    assignments = empty_assignments ps []\<rparr>"
    by blast
  have "distinct (map fst (empty_assignments ps []))"
    by (simp add: distinct_empty_assignments)
  moreover have "fst ` set (empty_assignments ps []) = set ps"
    by (rule set_keys_constructed)
  moreover have "\<forall>e \<in> set (empty_assignments ps []). snd e = []"
    using values_empty_assignments[of "[]" ps] by simp
  ultimately show "\<exists>s. Sweepstake ps ts = Some s \<and> participants s = ps \<and> teams s = ts \<and>
           map fst (assignments s) = rev (remdups (rev ps)) \<and>
           distinct (map fst (assignments s)) \<and>
           set (map fst (assignments s)) = set ps \<and>
           (\<forall>e \<in> set (assignments s). snd e = [])"
    using c keys_constructed[of ps] by simp
next
  show "Sweepstake [''A''] [] =
     Some \<lparr>participants = [''A''], teams = [], segmented_teams = [],
           assignments = [(''A'', [])]\<rparr>"
    by (simp add: Sweepstake_def post_init_def segment_teams_def segment_teams_loop.simps)
next
  show "assign_teams g (\<lparr>participants = [''A''], teams = [], segmented_teams = [],
                    assignments = [(''A'', [])]\<rparr>, k) =
     Inr (\<lparr>participants = [''A''], teams = [], segmented_teams = [],
           assignments = [(''A'', [])]\<rparr>, k)"
    by (simp add: assign_teams_def)
qed

text \<open>The theorem at participants \<open>[A, B, A]\<close>: the keys are \<open>[A, B]\<close>.\<close>

theorem Sweepstake_initial_assignments_witness:
  "\<exists>s. Sweepstake [''A'', ''B'', ''A''] [''T1''] = Some s \<and>
       assignments s = [(''A'', []), (''B'', [])]"
proof -
  have h: "[''A'', ''B'', ''A''] \<noteq> [] \<or> [''T1''] = []" by simp
  note t = Sweepstake_initial_assignments
    [where ps = "[''A'', ''B'', ''A'']" and ts = "[''T1'']" and g = first_choice and k = 0,
      THEN conjunct1, rule_format, OF h]
  then obtain s where s: "Sweepstake [''A'', ''B'', ''A''] [''T1''] = Some s"
    and keys: "map fst (assignments s) = rev (remdups (rev [''A'', ''B'', ''A'']))"
    and vals: "\<forall>e \<in> set (assignments s). snd e = []"
    by (elim exE conjE)
  from keys have "map fst (assignments s) = [''A'', ''B'']" by simp
  with vals have "assignments s = [(''A'', []), (''B'', [])]"
    by (auto simp: map_eq_Cons_conv)
  with s show ?thesis by (intro exI[of _ s] conjI)
qed

subsection \<open>The run on a constructed object\<close>

lemma assign_teams_constructed:
  assumes "ps \<noteq> [] \<or> ts = []"
  obtains segs s' k' where
    "Sweepstake ps ts = Some \<lparr>participants = ps, teams = ts, segmented_teams = segs,
                               assignments = empty_assignments ps []\<rparr>"
    "concat segs = ts"
    "\<forall>seg \<in> set segs. length seg \<le> length ps"
    "assign_teams g (\<lparr>participants = ps, teams = ts, segmented_teams = segs,
                      assignments = empty_assignments ps []\<rparr>, k) = Inr (s', k')"
proof -
  from assms obtain segs where
    c: "Sweepstake ps ts = Some \<lparr>participants = ps, teams = ts, segmented_teams = segs,
                                  assignments = empty_assignments ps []\<rparr>"
    and cat: "concat segs = ts"
    and fit: "\<forall>seg \<in> set segs. length seg \<le> length ps"
    by (rule run_constructed)
  let ?s = "\<lparr>participants = ps, teams = ts, segmented_teams = segs,
             assignments = empty_assignments ps []\<rparr>"
  have "\<forall>seg \<in> set segs. length seg \<le> length (participants ?s)" using fit by simp
  moreover have "set (participants ?s) \<subseteq> fst ` set (assignments ?s)"
    by (simp add: set_keys_constructed)
  ultimately obtain s' k' where "assign_teams_loop g segs (?s, k) = Inr (s', k')"
    using assign_teams_loop_ok by blast
  then have "assign_teams g (?s, k) = Inr (s', k')" by (simp add: assign_teams_def)
  with c cat fit show ?thesis by (rule that)
qed

subsection \<open>Claim C9: what \<^verbatim>\<open>assign_teams\<close> changes\<close>

text \<open>
  C9: a run of \<^verbatim>\<open>assign_teams\<close> that returns leaves \<^verbatim>\<open>participants\<close>, \<^verbatim>\<open>teams\<close>
  and \<^verbatim>\<open>segmented_teams\<close> as they were, from any object and under any random source;
  and on a constructed object with at least one participant it does return. The object
  has no other field than these three and \<^verbatim>\<open>assignments\<close>.
\<close>

theorem assign_teams_frame:
  "(assign_teams g (s, k) = Inr (s', k') \<longrightarrow>
      participants s' = participants s \<and> teams s' = teams s \<and>
      segmented_teams s' = segmented_teams s) \<and>
   (ps \<noteq> [] \<longrightarrow>
      (\<exists>s0 s1 k1. Sweepstake ps ts = Some s0 \<and> assign_teams g (s0, k) = Inr (s1, k1) \<and>
         participants s1 = ps \<and> teams s1 = ts \<and> segmented_teams s1 = segmented_teams s0))"
proof (rule conjI; rule impI)
  assume "assign_teams g (s, k) = Inr (s', k')"
  then show "participants s' = participants s \<and> teams s' = teams s \<and>
      segmented_teams s' = segmented_teams s"
    using assign_teams_loop_frame[of g "segmented_teams s" s k s' k']
    by (simp add: assign_teams_def)
next
  assume "ps \<noteq> []"
  then have "ps \<noteq> [] \<or> ts = []" by simp
  then obtain segs s1 k1 where
    c: "Sweepstake ps ts = Some \<lparr>participants = ps, teams = ts, segmented_teams = segs,
                               assignments = empty_assignments ps []\<rparr>"
    and r: "assign_teams g (\<lparr>participants = ps, teams = ts, segmented_teams = segs,
                      assignments = empty_assignments ps []\<rparr>, k) = Inr (s1, k1)"
    by (rule assign_teams_constructed)
  let ?s0 = "\<lparr>participants = ps, teams = ts, segmented_teams = segs,
                               assignments = empty_assignments ps []\<rparr>"
  have "participants s1 = ps \<and> teams s1 = ts \<and> segmented_teams s1 = segmented_teams ?s0"
    using assign_teams_loop_frame[of g segs ?s0 k s1 k1] r
    by (simp add: assign_teams_def)
  with c r show "\<exists>s0 s1 k1. Sweepstake ps ts = Some s0 \<and> assign_teams g (s0, k) = Inr (s1, k1) \<and>
         participants s1 = ps \<and> teams s1 = ts \<and> segmented_teams s1 = segmented_teams s0"
    by blast
qed

text \<open>
  The theorem at a run on participants \<open>[A, B]\<close>, teams \<open>[T1, T2, T3]\<close>, where the
  \<open>k\<close>-th draw takes index \<open>k\<close> modulo the size of the pool.
\<close>

theorem assign_teams_frame_witness:
  "assign_teams counting_choice
     (\<lparr>participants = [''A'', ''B''], teams = [''T1'', ''T2'', ''T3''],
       segmented_teams = [[''T1'', ''T2''], [''T3'']],
       assignments = [(''A'', []), (''B'', [])]\<rparr>, 0)
   = Inr (\<lparr>participants = [''A'', ''B''], teams = [''T1'', ''T2'', ''T3''],
           segmented_teams = [[''T1'', ''T2''], [''T3'']],
           assignments = [(''A'', [''T1'', ''T3'']), (''B'', [''T2''])]\<rparr>, 3)
   \<and> (\<exists>s0 s1 k1. Sweepstake [''A'', ''B''] [''T1'', ''T2'', ''T3''] = Some s0 \<and>
         assign_teams counting_choice (s0, 0) = Inr (s1, k1) \<and>
         participants s1 = [''A'', ''B''] \<and> teams s1 = [''T1'', ''T2'', ''T3''] \<and>
         segmented_teams s1 = segmented_teams s0)"
proof -
  let ?s = "\<lparr>participants = [''A'', ''B''], teams = [''T1'', ''T2'', ''T3''],
       segmented_teams = [[''T1'', ''T2''], [''T3'']],
       assignments = [(''A'', []), (''B'', [])]\<rparr>"
  let ?s' = "\<lparr>participants = [''A'', ''B''], teams = [''T1'', ''T2'', ''T3''],
           segmented_teams = [[''T1'', ''T2''], [''T3'']],
           assignments = [(''A'', [''T1'', ''T3'']), (''B'', [''T2''])]\<rparr>"
  have run: "assign_teams counting_choice (?s, 0) = Inr (?s', 3)"
    by (simp add: assign_teams_def assign_from_segments_def assign_team_def choice_def
        dict_append_def dict_get_def list_remove_def counting_choice_def numeral_3_eq_3)
  have ne: "[''A'', ''B''] \<noteq> []" by simp
  note t = assign_teams_frame
    [where g = counting_choice and s = ?s and k = 0 and s' = ?s' and k' = 3
       and ps = "[''A'', ''B'']" and ts = "[''T1'', ''T2'', ''T3'']"]
  from t[THEN conjunct2, rule_format, OF ne] run show ?thesis by (intro conjI)
qed

subsection \<open>Claim C2: every team is assigned once\<close>

text \<open>
  C2: with at least one participant the constructor and \<^verbatim>\<open>assign_teams\<close> return, under
  any random source. Afterwards the lists of \<^verbatim>\<open>assignments\<close>, taken together, hold
  exactly the teams, each as often as it occurs in the input (equality of multisets);
  the keys are the participants' names, each once; and the lengths of the lists add
  up to the number of teams. When no team occurs twice in the input, every team is in
  the list of exactly one participant, and no list holds a team twice.
\<close>

theorem assign_teams_conserves_teams:
  assumes "ps \<noteq> []"
  shows "\<exists>s s' k'. Sweepstake ps ts = Some s \<and> assign_teams g (s, k) = Inr (s', k') \<and>
           mset (concat (map snd (assignments s'))) = mset ts \<and>
           distinct (map fst (assignments s')) \<and>
           set (map fst (assignments s')) = set ps \<and>
           sum_list (map (\<lambda>e. length (snd e)) (assignments s')) = length ts \<and>
           (distinct ts \<longrightarrow>
              (\<forall>t \<in> set ts. \<exists>!p. \<exists>l. map_of (assignments s') p = Some l \<and> t \<in> set l) \<and>
              (\<forall>e \<in> set (assignments s'). distinct (snd e)))"
proof -
  from assms have "ps \<noteq> [] \<or> ts = []" by simp
  then obtain segs s' k' where
    c: "Sweepstake ps ts = Some \<lparr>participants = ps, teams = ts, segmented_teams = segs,
                               assignments = empty_assignments ps []\<rparr>"
    and cat: "concat segs = ts"
    and r: "assign_teams g (\<lparr>participants = ps, teams = ts, segmented_teams = segs,
                      assignments = empty_assignments ps []\<rparr>, k) = Inr (s', k')"
    by (rule assign_teams_constructed)
  let ?s = "\<lparr>participants = ps, teams = ts, segmented_teams = segs,
                               assignments = empty_assignments ps []\<rparr>"
  let ?d = "assignments s'"
  from r have l: "assign_teams_loop g segs (?s, k) = Inr (s', k')"
    by (simp add: assign_teams_def)
  note f = assign_teams_loop_frame[OF l]
  have keys: "map fst ?d = map fst (empty_assignments ps [])" using f by simp
  have items: "mset (concat (map snd ?d)) = mset ts"
    using f cat by (simp add: items_constructed)
  have dk: "distinct (map fst ?d)"
    unfolding keys by (simp add: distinct_empty_assignments)
  have sk: "set (map fst ?d) = set ps"
    unfolding keys by (simp only: keys_constructed set_rev set_remdups)
  have "sum_list (map (\<lambda>e. length (snd e)) ?d) = length (concat (map snd ?d))"
    by (simp add: length_concat comp_def)
  also have "\<dots> = size (mset (concat (map snd ?d)))" by simp
  also have "\<dots> = length ts" unfolding items by simp
  finally have total: "sum_list (map (\<lambda>e. length (snd e)) ?d) = length ts" .
  have once: "(\<forall>t \<in> set ts. \<exists>!p. \<exists>l. map_of ?d p = Some l \<and> t \<in> set l) \<and>
              (\<forall>e \<in> set ?d. distinct (snd e))" if dts: "distinct ts"
  proof -
    have dc: "distinct (concat (map snd ?d))"
      using items dts by (metis mset_eq_imp_distinct_iff)
    have sc: "set (concat (map snd ?d)) = set ts"
      using items by (rule mset_eq_setD)
    have "\<exists>!p. \<exists>l. map_of ?d p = Some l \<and> t \<in> set l" if t: "t \<in> set ts" for t
    proof -
      from t have "t \<in> set (concat (map snd ?d))" unfolding sc .
      then obtain e where e: "e \<in> set ?d" and te: "t \<in> set (snd e)" by auto
      then have "(fst e, snd e) \<in> set ?d" by simp
      with dk have m: "map_of ?d (fst e) = Some (snd e)" by (rule map_of_is_SomeI)
      show ?thesis
      proof (rule ex1I[of _ "fst e"])
        show "\<exists>l. map_of ?d (fst e) = Some l \<and> t \<in> set l" using m te by blast
      next
        fix p assume "\<exists>l. map_of ?d p = Some l \<and> t \<in> set l"
        then obtain l where pl: "map_of ?d p = Some l" and tl: "t \<in> set l" by blast
        from pl have "(p, l) \<in> set ?d" by (rule map_of_SomeD)
        from unique_holder[OF dc this e] tl te have "(p, l) = e" by simp
        then show "p = fst e" by auto
      qed
    qed
    moreover have "\<forall>e \<in> set ?d. distinct (snd e)"
      using dc by (auto simp: distinct_concat_iff)
    ultimately show ?thesis by blast
  qed
  from c r items dk sk total once show ?thesis by blast
qed

text \<open>The theorem at participants \<open>[A, B]\<close> and teams \<open>[T1, T2, T3]\<close>.\<close>

theorem assign_teams_conserves_teams_witness:
  "\<exists>s s' k'. Sweepstake [''A'', ''B''] [''T1'', ''T2'', ''T3''] = Some s \<and>
      assign_teams counting_choice (s, 0) = Inr (s', k') \<and>
      mset (concat (map snd (assignments s'))) = {#''T1'', ''T2'', ''T3''#} \<and>
      sum_list (map (\<lambda>e. length (snd e)) (assignments s')) = 3 \<and>
      (\<exists>p l. map_of (assignments s') p = Some l \<and> ''T2'' \<in> set l)"
proof -
  have ne: "[''A'', ''B''] \<noteq> []" by simp
  from assign_teams_conserves_teams[OF ne, of "[''T1'', ''T2'', ''T3'']" counting_choice 0]
  obtain s s' k' where c: "Sweepstake [''A'', ''B''] [''T1'', ''T2'', ''T3''] = Some s"
    and r: "assign_teams counting_choice (s, 0) = Inr (s', k')"
    and items: "mset (concat (map snd (assignments s'))) = mset [''T1'', ''T2'', ''T3'']"
    and total: "sum_list (map (\<lambda>e. length (snd e)) (assignments s')) = length [''T1'', ''T2'', ''T3'']"
    and once: "distinct [''T1'', ''T2'', ''T3''] \<longrightarrow>
              (\<forall>t \<in> set [''T1'', ''T2'', ''T3''].
                  \<exists>!p. \<exists>l. map_of (assignments s') p = Some l \<and> t \<in> set l) \<and>
              (\<forall>e \<in> set (assignments s'). distinct (snd e))"
    by (elim exE conjE)
  have "distinct [''T1'', ''T2'', ''T3'']" by simp
  with once have "\<exists>!p. \<exists>l. map_of (assignments s') p = Some l \<and> ''T2'' \<in> set l" by simp
  then have "\<exists>p l. map_of (assignments s') p = Some l \<and> ''T2'' \<in> set l" by (rule ex1_implies_ex)
  moreover from items have "mset (concat (map snd (assignments s'))) = {#''T1'', ''T2'', ''T3''#}"
    by (simp add: add.commute)
  moreover from total have "sum_list (map (\<lambda>e. length (snd e)) (assignments s')) = 3" by simp
  ultimately show ?thesis using c r by (intro exI[of _ s] exI[of _ s'] exI[of _ k'] conjI)
qed

subsection \<open>Claim C5: the draws of one segment\<close>

text \<open>
  C5: let the segment be no longer than the list of participants, on an object whose
  dict has every participant as a key (the constructor makes it so and the assignment
  keeps the keys). Then \<^verbatim>\<open>assign_from_segments\<close> returns, having made as many draws as
  the segment has teams. Before the draw for the \<open>i\<close>-th team the loop has made \<open>i\<close>
  draws, the pool has \<open>P - i\<close> names and is not empty, so \<^verbatim>\<open>random.choice\<close> returns a
  name and not \<^verbatim>\<open>IndexError\<close>; the iteration succeeds and leaves a pool that is one
  shorter.
\<close>

theorem assign_from_segments_draws:
  assumes "length seg \<le> length (participants s)"
    and "set (participants s) \<subseteq> fst ` set (assignments s)"
  shows "(\<exists>s'. assign_from_segments g seg (s, k) = Inr (s', k + length seg)) \<and>
         (\<forall>i<length seg. \<exists>pool d p pool' d'.
             assign_loop g (take i seg) (participants s, assignments s, k) = Inr (pool, d, k + i) \<and>
             length pool = length (participants s) - i \<and> pool \<noteq> [] \<and>
             choice g (k + i) pool = Inr p \<and>
             assign_team g (seg ! i) (pool, d, k + i) = Inr (pool', d', Suc (k + i)) \<and>
             Suc (length pool') = length pool)"
proof (rule conjI)
  from assign_from_segments_ok[OF assms] obtain s' k' where
    a: "assign_from_segments g seg (s, k) = Inr (s', k')" by blast
  from assign_from_segments_frame(5)[OF a] a
  show "\<exists>s'. assign_from_segments g seg (s, k) = Inr (s', k + length seg)" by blast
next
  show "\<forall>i<length seg. \<exists>pool d p pool' d'.
             assign_loop g (take i seg) (participants s, assignments s, k) = Inr (pool, d, k + i) \<and>
             length pool = length (participants s) - i \<and> pool \<noteq> [] \<and>
             choice g (k + i) pool = Inr p \<and>
             assign_team g (seg ! i) (pool, d, k + i) = Inr (pool', d', Suc (k + i)) \<and>
             Suc (length pool') = length pool"
  proof (intro allI impI)
    fix i assume i: "i < length seg"
    then have "length (take i seg) \<le> length (participants s)" using assms(1) by simp
    from assign_loop_ok[OF this assms(2)] obtain r where
      "assign_loop g (take i seg) (participants s, assignments s, k) = Inr r" by blast
    then obtain pool d k' where
      l: "assign_loop g (take i seg) (participants s, assignments s, k) = Inr (pool, d, k')"
      by (cases r) auto
    from assign_loop_draws[OF l] i have k': "k' = k + i"
      and len: "length pool + i = length (participants s)"
      and sub: "mset pool \<subseteq># mset (participants s)"
      by simp_all
    from len i assms(1) have ne: "pool \<noteq> []" by auto
    have "set pool \<subseteq> set (participants s)" using sub by (metis set_mset_mono set_mset_mset)
    moreover have "fst ` set d = fst ` set (assignments s)"
      using assign_loop_keys[OF l] by (metis list.set_map)
    ultimately have "set pool \<subseteq> fst ` set d" using assms(2) by simp
    from assign_team_ok[OF ne this] obtain st' where
      a: "assign_team g (seg ! i) (pool, d, k + i) = Inr st'" by blast
    let ?p = "pool ! (g (k + i) mod length pool)"
    from a obtain v where st': "st' = (remove1 ?p pool, dict_set ?p (v @ [seg ! i]) d, Suc (k + i))"
      by (auto simp: assign_team_Inr)
    have "?p \<in> set pool" using ne by simp
    then have "Suc (length (remove1 ?p pool)) = length pool"
      using ne by (simp add: length_remove1)
    moreover have "choice g (k + i) pool = Inr ?p" using ne by (simp add: choice_def)
    moreover have "length pool = length (participants s) - i" using len by simp
    ultimately show "\<exists>pool d p pool' d'.
             assign_loop g (take i seg) (participants s, assignments s, k) = Inr (pool, d, k + i) \<and>
             length pool = length (participants s) - i \<and> pool \<noteq> [] \<and>
             choice g (k + i) pool = Inr p \<and>
             assign_team g (seg ! i) (pool, d, k + i) = Inr (pool', d', Suc (k + i)) \<and>
             Suc (length pool') = length pool"
      using l k' ne a st' by blast
  qed
qed

text \<open>
  The theorem at a segment of two teams and three participants, always drawing the first
  name of the pool; the hypotheses hold there, and the second draw is from a pool of two.
\<close>

theorem assign_from_segments_draws_witness:
  "(\<exists>s'. assign_from_segments first_choice [''T1'', ''T2'']
            (\<lparr>participants = [''A'', ''B'', ''C''], teams = [''T1'', ''T2''],
              segmented_teams = [[''T1'', ''T2'']],
              assignments = [(''A'', []), (''B'', []), (''C'', [])]\<rparr>, 0) = Inr (s', 2)) \<and>
   (\<exists>pool d p pool' d'.
       assign_loop first_choice [''T1'']
         ([''A'', ''B'', ''C''], [(''A'', []), (''B'', []), (''C'', [])], 0) = Inr (pool, d, 1) \<and>
       length pool = 2 \<and> choice first_choice 1 pool = Inr p \<and>
       assign_team first_choice ''T2'' (pool, d, 1) = Inr (pool', d', 2) \<and>
       Suc (length pool') = length pool)"
proof -
  let ?s = "\<lparr>participants = [''A'', ''B'', ''C''], teams = [''T1'', ''T2''],
              segmented_teams = [[''T1'', ''T2'']],
              assignments = [(''A'', []), (''B'', []), (''C'', [])]\<rparr>"
  have h1: "length [''T1'', ''T2''] \<le> length (participants ?s)" by simp
  have h2: "set (participants ?s) \<subseteq> fst ` set (assignments ?s)" by simp
  note t = assign_from_segments_draws[OF h1 h2, of first_choice 0]
  from t[THEN conjunct1] have a: "\<exists>s'. assign_from_segments first_choice [''T1'', ''T2''] (?s, 0) = Inr (s', 2)"
    by (simp add: numeral_2_eq_2)
  from t[THEN conjunct2, rule_format, of 1] have
    "\<exists>pool d p pool' d'.
       assign_loop first_choice [''T1'']
         ([''A'', ''B'', ''C''], [(''A'', []), (''B'', []), (''C'', [])], 0) = Inr (pool, d, 1) \<and>
       length pool = 2 \<and> pool \<noteq> [] \<and> choice first_choice 1 pool = Inr p \<and>
       assign_team first_choice ''T2'' (pool, d, 1) = Inr (pool', d', 2) \<and>
       Suc (length pool') = length pool"
    by (simp del: assign_loop.simps add: numeral_2_eq_2)
  then have b: "\<exists>pool d p pool' d'.
       assign_loop first_choice [''T1'']
         ([''A'', ''B'', ''C''], [(''A'', []), (''B'', []), (''C'', [])], 0) = Inr (pool, d, 1) \<and>
       length pool = 2 \<and> choice first_choice 1 pool = Inr p \<and>
       assign_team first_choice ''T2'' (pool, d, 1) = Inr (pool', d', 2) \<and>
       Suc (length pool') = length pool"
    by (elim exE conjE) (intro exI conjI)
  from a b show ?thesis by (rule conjI)
qed

subsection \<open>The parts of a participant's list, and full segments\<close>

lemma constructed_run_parts:
  assumes ok: "ps \<noteq> [] \<or> ts = []" and p: "p \<in> set ps"
    and c: "Sweepstake ps ts = Some s0"
  shows "\<exists>parts. length parts = length (segmented_teams s0) \<and>
           (\<forall>i<length (segmented_teams s0).
                mset (parts ! i) \<subseteq># mset (segmented_teams s0 ! i) \<and>
                length (parts ! i) \<le> count (mset ps) p \<and>
                (length (segmented_teams s0 ! i) = length ps \<longrightarrow>
                   length (parts ! i) = count (mset ps) p)) \<and>
           (\<forall>i\<le>length (segmented_teams s0). \<exists>si ki.
                assign_teams_loop g (take i (segmented_teams s0)) (s0, k) = Inr (si, ki) \<and>
                map_of (assignments si) p = Some (concat (take i parts)))"
proof -
  from ok obtain segs where
    c': "Sweepstake ps ts = Some \<lparr>participants = ps, teams = ts, segmented_teams = segs,
                                  assignments = empty_assignments ps []\<rparr>"
    and fit: "\<forall>seg \<in> set segs. length seg \<le> length ps"
    by (rule run_constructed)
  from c c' have s0: "s0 = \<lparr>participants = ps, teams = ts, segmented_teams = segs,
                                  assignments = empty_assignments ps []\<rparr>" by simp
  have 1: "\<forall>seg \<in> set (segmented_teams s0). length seg \<le> length (participants s0)"
    using fit s0 by simp
  have 2: "set (participants s0) \<subseteq> fst ` set (assignments s0)"
    using s0 by (simp add: set_keys_constructed)
  have 3: "map_of (assignments s0) p = Some []"
    using s0 p by (simp add: lookup_constructed)
  from assign_teams_loop_parts[OF 1 2 3, of g k] show ?thesis
    using s0 by simp
qed

lemma segments_full:
  assumes run: "segment_teams self = Some segs"
    and dvd: "length (participants self) dvd length (teams self)"
  shows "length segs = length (teams self) div length (participants self)"
    and "\<forall>seg \<in> set segs. length seg = length (participants self)"
proof -
  define P where "P = length (participants self)"
  define N where "N = length (teams self)"
  have ok: "participants self \<noteq> [] \<or> teams self = []"
    using dvd by (cases "participants self") auto
  from segment_teams_result[OF ok] run have
    sizes: "map length segs = replicate (N div min P N) (min P N) @
              (if N mod min P N = 0 then [] else [N mod min P N])"
    by (auto simp: P_def N_def)
  have "map length segs = replicate (N div P) P"
  proof (cases "N = 0")
    case True
    then show ?thesis using sizes by simp
  next
    case False
    then have "P \<le> N" using dvd by (auto simp: P_def N_def dvd_imp_le)
    then have "min P N = P" by simp
    moreover have "N mod P = 0" using dvd by (simp add: P_def N_def)
    ultimately show ?thesis using sizes by simp
  qed
  then have l: "length (map length segs) = N div P"
    and a: "\<forall>x \<in> set (map length segs). x = P" by simp_all
  from l show "length segs = length (teams self) div length (participants self)"
    by (simp add: P_def N_def)
  from a show "\<forall>seg \<in> set segs. length seg = length (participants self)"
    by (simp add: P_def)
qed

subsection \<open>Claim C3: one team of a segment for each participant\<close>

text \<open>
  C3 says that, for every input with at least one participant, no participant's list
  receives more than one team of the same segment. The dict is keyed by name, and
  \<^verbatim>\<open>participants.remove\<close> removes one occurrence of the drawn name: a name that occurs
  twice in \<^verbatim>\<open>participants\<close> stays in the pool after its first draw. With participants
  \<open>[A, A]\<close> and teams \<open>[T1, T2]\<close> the only segment is \<open>[T1, T2]\<close> and the list of \<open>A\<close>
  receives both teams.
\<close>

theorem duplicate_name_two_items_counterexample:
  "Sweepstake [''A'', ''A''] [''T1'', ''T2''] =
     Some \<lparr>participants = [''A'', ''A''], teams = [''T1'', ''T2''],
           segmented_teams = [[''T1'', ''T2'']], assignments = [(''A'', [])]\<rparr> \<and>
   assign_from_segments first_choice [''T1'', ''T2'']
     (\<lparr>participants = [''A'', ''A''], teams = [''T1'', ''T2''],
       segmented_teams = [[''T1'', ''T2'']], assignments = [(''A'', [])]\<rparr>, 0) =
     Inr (\<lparr>participants = [''A'', ''A''], teams = [''T1'', ''T2''],
           segmented_teams = [[''T1'', ''T2'']], assignments = [(''A'', [''T1'', ''T2''])]\<rparr>, 2)"
  by (simp add: Sweepstake_def post_init_def segment_teams_def segment_teams_loop.simps
      take_segment_def assign_from_segments_def assign_team_def choice_def
      dict_append_def dict_get_def list_remove_def first_choice_def)

text \<open>
  C3 as amended: the names of the participants are pairwise distinct. Then, in the run of
  \<^verbatim>\<open>assign_teams\<close> on the constructed object, under any random source, the call of
  \<^verbatim>\<open>assign_from_segments\<close> for the \<open>i\<close>-th segment returns, and it extends the list
  of each participant by at most one team, which is a team of that segment.
\<close>

theorem one_item_per_segment:
  assumes "distinct ps" and "ps \<noteq> []"
  shows "\<exists>s0. Sweepstake ps ts = Some s0 \<and>
           (\<forall>p \<in> set ps. \<forall>i<length (segmented_teams s0). \<exists>si ki sj kj l added.
              assign_teams_loop g (take i (segmented_teams s0)) (s0, k) = Inr (si, ki) \<and>
              assign_from_segments g (segmented_teams s0 ! i) (si, ki) = Inr (sj, kj) \<and>
              map_of (assignments si) p = Some l \<and>
              map_of (assignments sj) p = Some (l @ added) \<and>
              length added \<le> 1 \<and> set added \<subseteq> set (segmented_teams s0 ! i))"
proof -
  from assms(2) have ok: "ps \<noteq> [] \<or> ts = []" by simp
  from Sweepstake_result[OF ok] obtain s0 where c: "Sweepstake ps ts = Some s0" by blast
  have "\<exists>si ki sj kj l added.
              assign_teams_loop g (take i (segmented_teams s0)) (s0, k) = Inr (si, ki) \<and>
              assign_from_segments g (segmented_teams s0 ! i) (si, ki) = Inr (sj, kj) \<and>
              map_of (assignments si) p = Some l \<and>
              map_of (assignments sj) p = Some (l @ added) \<and>
              length added \<le> 1 \<and> set added \<subseteq> set (segmented_teams s0 ! i)"
    if p: "p \<in> set ps" and i: "i < length (segmented_teams s0)" for p i
  proof -
    let ?segs = "segmented_teams s0"
    from constructed_run_parts[OF ok p c, of g k] obtain parts where
      len: "length parts = length ?segs"
      and sub: "\<forall>i<length ?segs. mset (parts ! i) \<subseteq># mset (?segs ! i) \<and>
                length (parts ! i) \<le> count (mset ps) p \<and>
                (length (?segs ! i) = length ps \<longrightarrow> length (parts ! i) = count (mset ps) p)"
      and runs: "\<forall>i\<le>length ?segs. \<exists>si ki.
                assign_teams_loop g (take i ?segs) (s0, k) = Inr (si, ki) \<and>
                map_of (assignments si) p = Some (concat (take i parts))"
      by blast
    from runs i obtain si ki where
      ri: "assign_teams_loop g (take i ?segs) (s0, k) = Inr (si, ki)"
      and vi: "map_of (assignments si) p = Some (concat (take i parts))"
      by (meson less_imp_le)
    from runs i obtain sj kj where
      rj: "assign_teams_loop g (take (Suc i) ?segs) (s0, k) = Inr (sj, kj)"
      and vj: "map_of (assignments sj) p = Some (concat (take (Suc i) parts))"
      by (meson Suc_leI)
    from rj ri have a: "assign_from_segments g (?segs ! i) (si, ki) = Inr (sj, kj)"
      by (simp add: assign_teams_loop_step[OF i])
    have "take (Suc i) parts = take i parts @ [parts ! i]"
      using i len by (simp add: take_Suc_conv_app_nth)
    with vj have vj': "map_of (assignments sj) p = Some (concat (take i parts) @ parts ! i)"
      by simp
    have "count (mset ps) p = 1" using assms(1) p by (simp add: distinct_count_atmost_1)
    with sub i have le: "length (parts ! i) \<le> 1" by auto
    from sub i have "mset (parts ! i) \<subseteq># mset (?segs ! i)" by simp
    then have "set (parts ! i) \<subseteq> set (?segs ! i)" by (metis set_mset_mono set_mset_mset)
    with ri a vi vj' le show ?thesis by blast
  qed
  with c show ?thesis by blast
qed

text \<open>
  The theorem at participants \<open>[A, B]\<close>, teams \<open>[T1, T2, T3]\<close>, participant \<open>A\<close>
  and the first segment, \<open>[T1, T2]\<close>.
\<close>

theorem one_item_per_segment_witness:
  "\<exists>si ki sj kj l added.
      assign_teams_loop counting_choice []
        (\<lparr>participants = [''A'', ''B''], teams = [''T1'', ''T2'', ''T3''],
          segmented_teams = [[''T1'', ''T2''], [''T3'']],
          assignments = [(''A'', []), (''B'', [])]\<rparr>, 0) = Inr (si, ki) \<and>
      assign_from_segments counting_choice [''T1'', ''T2''] (si, ki) = Inr (sj, kj) \<and>
      map_of (assignments si) ''A'' = Some l \<and>
      map_of (assignments sj) ''A'' = Some (l @ added) \<and>
      length added \<le> 1 \<and> set added \<subseteq> set [''T1'', ''T2'']"
proof -
  let ?S0 = "\<lparr>participants = [''A'', ''B''], teams = [''T1'', ''T2'', ''T3''],
          segmented_teams = [[''T1'', ''T2''], [''T3'']],
          assignments = [(''A'', []), (''B'', [])]\<rparr>"
  have d: "distinct [''A'', ''B'']" and ne: "[''A'', ''B''] \<noteq> []" by simp_all
  have c0: "Sweepstake [''A'', ''B''] [''T1'', ''T2'', ''T3''] = Some ?S0"
    by (simp add: Sweepstake_def post_init_def segment_teams_def segment_teams_loop.simps
        take_segment_def)
  from one_item_per_segment[OF d ne, of "[''T1'', ''T2'', ''T3'']" counting_choice 0]
  obtain s0 where c: "Sweepstake [''A'', ''B''] [''T1'', ''T2'', ''T3''] = Some s0"
    and all: "\<forall>p \<in> set [''A'', ''B'']. \<forall>i<length (segmented_teams s0). \<exists>si ki sj kj l added.
              assign_teams_loop counting_choice (take i (segmented_teams s0)) (s0, 0) = Inr (si, ki) \<and>
              assign_from_segments counting_choice (segmented_teams s0 ! i) (si, ki) = Inr (sj, kj) \<and>
              map_of (assignments si) p = Some l \<and>
              map_of (assignments sj) p = Some (l @ added) \<and>
              length added \<le> 1 \<and> set added \<subseteq> set (segmented_teams s0 ! i)"
    by (elim exE conjE)
  from c c0 have s0: "s0 = ?S0" by simp
  have p: "''A'' \<in> set [''A'', ''B'']" by simp
  have i: "0 < length (segmented_teams s0)" by (simp add: s0)
  have seg: "segmented_teams s0 ! 0 = [''T1'', ''T2'']" "take 0 (segmented_teams s0) = []"
    by (simp_all add: s0)
  from all[rule_format, OF p i] show ?thesis unfolding seg unfolding s0 .
qed

subsection \<open>Claim C6: the order of a participant's list\<close>

text \<open>
  C6: with at least one participant the constructor and \<^verbatim>\<open>assign_teams\<close> return, under
  any random source, and the final list of each participant is the concatenation
  \<open>concat parts\<close> of one part for each segment, in the order of the segments: the
  \<open>i\<close>-th part holds teams of the \<open>i\<close>-th segment only, and after the first \<open>i\<close>
  segments have been processed the participant's list is the first \<open>i\<close> parts. So a
  team drawn from an earlier segment stands before every team drawn from a later one.
\<close>

theorem assignments_in_segment_order:
  assumes "ps \<noteq> []"
  shows "\<exists>s0 s' k'. Sweepstake ps ts = Some s0 \<and> assign_teams g (s0, k) = Inr (s', k') \<and>
           (\<forall>p \<in> set ps. \<exists>parts.
              length parts = length (segmented_teams s0) \<and>
              map_of (assignments s') p = Some (concat parts) \<and>
              (\<forall>i<length parts. mset (parts ! i) \<subseteq># mset (segmented_teams s0 ! i)) \<and>
              (\<forall>i\<le>length parts. \<exists>si ki.
                 assign_teams_loop g (take i (segmented_teams s0)) (s0, k) = Inr (si, ki) \<and>
                 map_of (assignments si) p = Some (concat (take i parts))))"
proof -
  from assms have ok: "ps \<noteq> [] \<or> ts = []" by simp
  then obtain segs s' k' where
    c: "Sweepstake ps ts = Some \<lparr>participants = ps, teams = ts, segmented_teams = segs,
                               assignments = empty_assignments ps []\<rparr>"
    and r: "assign_teams g (\<lparr>participants = ps, teams = ts, segmented_teams = segs,
                      assignments = empty_assignments ps []\<rparr>, k) = Inr (s', k')"
    by (rule assign_teams_constructed)
  define s0 where "s0 = \<lparr>participants = ps, teams = ts, segmented_teams = segs,
                               assignments = empty_assignments ps []\<rparr>"
  from c r have c': "Sweepstake ps ts = Some s0" and r': "assign_teams g (s0, k) = Inr (s', k')"
    by (simp_all add: s0_def)
  from r' have l: "assign_teams_loop g (segmented_teams s0) (s0, k) = Inr (s', k')"
    by (simp add: assign_teams_def)
  have "\<exists>parts.
              length parts = length (segmented_teams s0) \<and>
              map_of (assignments s') p = Some (concat parts) \<and>
              (\<forall>i<length parts. mset (parts ! i) \<subseteq># mset (segmented_teams s0 ! i)) \<and>
              (\<forall>i\<le>length parts. \<exists>si ki.
                 assign_teams_loop g (take i (segmented_teams s0)) (s0, k) = Inr (si, ki) \<and>
                 map_of (assignments si) p = Some (concat (take i parts)))"
    if p: "p \<in> set ps" for p
  proof -
    from constructed_run_parts[OF ok p c', of g k] obtain parts where
      len: "length parts = length (segmented_teams s0)"
      and sub: "\<forall>i<length (segmented_teams s0).
                mset (parts ! i) \<subseteq># mset (segmented_teams s0 ! i) \<and>
                length (parts ! i) \<le> count (mset ps) p \<and>
                (length (segmented_teams s0 ! i) = length ps \<longrightarrow>
                   length (parts ! i) = count (mset ps) p)"
      and runs: "\<forall>i\<le>length (segmented_teams s0). \<exists>si ki.
                assign_teams_loop g (take i (segmented_teams s0)) (s0, k) = Inr (si, ki) \<and>
                map_of (assignments si) p = Some (concat (take i parts))"
      by blast
    from runs[rule_format, of "length (segmented_teams s0)"] l len
    have fin: "map_of (assignments s') p = Some (concat parts)" by simp
    have 1: "\<forall>i<length parts. mset (parts ! i) \<subseteq># mset (segmented_teams s0 ! i)"
      using sub len by simp
    have 2: "\<forall>i\<le>length parts. \<exists>si ki.
                 assign_teams_loop g (take i (segmented_teams s0)) (s0, k) = Inr (si, ki) \<and>
                 map_of (assignments si) p = Some (concat (take i parts))"
      using runs len by simp
    from len fin 1 2 show ?thesis by blast
  qed
  with c' r' show ?thesis by blast
qed

text \<open>
  The theorem at participants \<open>[A, B]\<close> and teams \<open>[T1, T2, T3]\<close>, for participant
  \<open>A\<close>: two parts, the first of teams of \<open>[T1, T2]\<close> and the second of teams of \<open>[T3]\<close>.
\<close>

theorem assignments_in_segment_order_witness:
  "\<exists>s' k' part1 part2.
      assign_teams counting_choice
        (\<lparr>participants = [''A'', ''B''], teams = [''T1'', ''T2'', ''T3''],
          segmented_teams = [[''T1'', ''T2''], [''T3'']],
          assignments = [(''A'', []), (''B'', [])]\<rparr>, 0) = Inr (s', k') \<and>
      map_of (assignments s') ''A'' = Some (part1 @ part2) \<and>
      mset part1 \<subseteq># mset [''T1'', ''T2''] \<and> mset part2 \<subseteq># mset [''T3'']"
proof -
  let ?S0 = "\<lparr>participants = [''A'', ''B''], teams = [''T1'', ''T2'', ''T3''],
          segmented_teams = [[''T1'', ''T2''], [''T3'']],
          assignments = [(''A'', []), (''B'', [])]\<rparr>"
  have ne: "[''A'', ''B''] \<noteq> []" by simp
  have c0: "Sweepstake [''A'', ''B''] [''T1'', ''T2'', ''T3''] = Some ?S0"
    by (simp add: Sweepstake_def post_init_def segment_teams_def segment_teams_loop.simps
        take_segment_def)
  from assignments_in_segment_order[OF ne, of "[''T1'', ''T2'', ''T3'']" counting_choice 0]
  obtain s0 s' k' where c: "Sweepstake [''A'', ''B''] [''T1'', ''T2'', ''T3''] = Some s0"
    and r: "assign_teams counting_choice (s0, 0) = Inr (s', k')"
    and all: "\<forall>p \<in> set [''A'', ''B'']. \<exists>parts.
              length parts = length (segmented_teams s0) \<and>
              map_of (assignments s') p = Some (concat parts) \<and>
              (\<forall>i<length parts. mset (parts ! i) \<subseteq># mset (segmented_teams s0 ! i)) \<and>
              (\<forall>i\<le>length parts. \<exists>si ki.
                 assign_teams_loop counting_choice (take i (segmented_teams s0)) (s0, 0) = Inr (si, ki) \<and>
                 map_of (assignments si) p = Some (concat (take i parts)))"
    by (elim exE conjE)
  from c c0 have s0: "s0 = ?S0" by simp
  have "''A'' \<in> set [''A'', ''B'']" by simp
  from all[rule_format, OF this] obtain parts where
    len: "length parts = length (segmented_teams s0)"
    and fin: "map_of (assignments s') ''A'' = Some (concat parts)"
    and sub: "\<forall>i<length parts. mset (parts ! i) \<subseteq># mset (segmented_teams s0 ! i)"
    by (elim exE conjE)
  from len have "length parts = 2" by (simp add: s0)
  then obtain part1 part2 where parts: "parts = [part1, part2]"
    by (auto simp: length_Suc_conv numeral_2_eq_2)
  from sub[rule_format, of 0] have 1: "mset part1 \<subseteq># mset [''T1'', ''T2'']"
    by (simp add: parts s0)
  from sub[rule_format, of 1] have 2: "mset part2 \<subseteq># mset [''T3'']"
    by (simp add: parts s0)
  from fin have 3: "map_of (assignments s') ''A'' = Some (part1 @ part2)" by (simp add: parts)
  from r have 4: "assign_teams counting_choice (?S0, 0) = Inr (s', k')" by (simp add: s0)
  from 4 3 1 2 show ?thesis by (intro exI conjI)
qed

subsection \<open>Claim C10: full segments\<close>

text \<open>
  C10: let the names of the participants be pairwise distinct. On an object whose dict
  has every participant as a key, \<^verbatim>\<open>assign_from_segments\<close> with a segment that has as
  many teams as there are participants returns, under any random source, and extends
  the list of every participant by exactly one team of the segment. Consequently, when
  the number of participants divides the number of teams, the constructor and
  \<^verbatim>\<open>assign_teams\<close> return and every participant ends with \<open>N div P\<close> teams.
\<close>

theorem full_segment_one_each:
  "(distinct (participants s) \<and> set (participants s) \<subseteq> fst ` set (assignments s) \<and>
    length seg = length (participants s) \<longrightarrow>
      (\<exists>s' k'. assign_from_segments g seg (s, k) = Inr (s', k') \<and>
         (\<forall>p \<in> set (participants s). \<exists>l t.
            map_of (assignments s) p = Some l \<and> t \<in> set seg \<and>
            map_of (assignments s') p = Some (l @ [t])))) \<and>
   (distinct ps \<and> length ps dvd length ts \<longrightarrow>
      (\<exists>s0 s1 k1. Sweepstake ps ts = Some s0 \<and> assign_teams g (s0, k) = Inr (s1, k1) \<and>
         (\<forall>p \<in> set ps. \<exists>l. map_of (assignments s1) p = Some l \<and>
                              length l = length ts div length ps)))"
proof (rule conjI; rule impI)
  assume a: "distinct (participants s) \<and> set (participants s) \<subseteq> fst ` set (assignments s) \<and>
    length seg = length (participants s)"
  then have d: "distinct (participants s)"
    and keys: "set (participants s) \<subseteq> fst ` set (assignments s)"
    and full: "length seg = length (participants s)" by simp_all
  from full have "length seg \<le> length (participants s)" by simp
  from assign_from_segments_ok[OF this keys] obtain s' k' where
    r: "assign_from_segments g seg (s, k) = Inr (s', k')" by blast
  have "\<exists>l t. map_of (assignments s) p = Some l \<and> t \<in> set seg \<and>
            map_of (assignments s') p = Some (l @ [t])" if p: "p \<in> set (participants s)" for p
  proof -
    from p keys obtain l where l: "map_of (assignments s) p = Some l"
      by (metis map_of_eq_None_iff not_Some_eq subsetD)
    from assign_from_segments_added[OF r, of p] full obtain added where
      m: "map_of (assignments s') p = map_option (\<lambda>v. v @ added) (map_of (assignments s) p)"
      and sub: "mset added \<subseteq># mset seg"
      and cnt: "length added = count (mset (participants s)) p"
      by auto
    have "count (mset (participants s)) p = 1" using d p by (simp add: distinct_count_atmost_1)
    with cnt have "length added = 1" by simp
    then obtain t where t: "added = [t]" by (auto simp: length_Suc_conv)
    have "set added \<subseteq> set seg" using sub by (metis set_mset_mono set_mset_mset)
    then have "t \<in> set seg" using t by simp
    with l m t show ?thesis by simp
  qed
  with r show "\<exists>s' k'. assign_from_segments g seg (s, k) = Inr (s', k') \<and>
         (\<forall>p \<in> set (participants s). \<exists>l t.
            map_of (assignments s) p = Some l \<and> t \<in> set seg \<and>
            map_of (assignments s') p = Some (l @ [t]))"
    by blast
next
  assume a: "distinct ps \<and> length ps dvd length ts"
  then have d: "distinct ps" and dvd: "length ps dvd length ts" by simp_all
  have ok: "ps \<noteq> [] \<or> ts = []" using dvd by (cases ps) auto
  then obtain segs s1 k1 where
    c: "Sweepstake ps ts = Some \<lparr>participants = ps, teams = ts, segmented_teams = segs,
                               assignments = empty_assignments ps []\<rparr>"
    and r: "assign_teams g (\<lparr>participants = ps, teams = ts, segmented_teams = segs,
                      assignments = empty_assignments ps []\<rparr>, k) = Inr (s1, k1)"
    by (rule assign_teams_constructed)
  define s0 where "s0 = \<lparr>participants = ps, teams = ts, segmented_teams = segs,
                               assignments = empty_assignments ps []\<rparr>"
  from c r have c': "Sweepstake ps ts = Some s0" and r': "assign_teams g (s0, k) = Inr (s1, k1)"
    by (simp_all add: s0_def)
  from r' have l: "assign_teams_loop g (segmented_teams s0) (s0, k) = Inr (s1, k1)"
    by (simp add: assign_teams_def)
  from c have sg: "segment_teams \<lparr>participants = ps, teams = ts\<rparr> = Some segs"
    by (auto simp: Sweepstake_def post_init_def split: option.splits)
  have dvd': "length (participants \<lparr>participants = ps, teams = ts\<rparr>)
                dvd length (teams \<lparr>participants = ps, teams = ts\<rparr>)"
    using dvd by simp
  note sf = segments_full[OF sg dvd']
  have n: "length segs = length ts div length ps" using sf(1) by simp
  have fl: "\<forall>seg \<in> set segs. length seg = length ps" using sf(2) by simp
  have "\<exists>l. map_of (assignments s1) p = Some l \<and> length l = length ts div length ps"
    if p: "p \<in> set ps" for p
  proof -
    from constructed_run_parts[OF ok p c', of g k] obtain parts where
      len: "length parts = length (segmented_teams s0)"
      and sub: "\<forall>i<length (segmented_teams s0).
                mset (parts ! i) \<subseteq># mset (segmented_teams s0 ! i) \<and>
                length (parts ! i) \<le> count (mset ps) p \<and>
                (length (segmented_teams s0 ! i) = length ps \<longrightarrow>
                   length (parts ! i) = count (mset ps) p)"
      and runs: "\<forall>i\<le>length (segmented_teams s0). \<exists>si ki.
                assign_teams_loop g (take i (segmented_teams s0)) (s0, k) = Inr (si, ki) \<and>
                map_of (assignments si) p = Some (concat (take i parts))"
      by blast
    from runs[rule_format, of "length (segmented_teams s0)"] l len
    have fin: "map_of (assignments s1) p = Some (concat parts)" by simp
    have one: "count (mset ps) p = 1" using d p by (simp add: distinct_count_atmost_1)
    have "\<forall>x \<in> set parts. length x = 1"
    proof
      fix x assume "x \<in> set parts"
      then obtain i where i: "i < length parts" and x: "x = parts ! i"
        by (auto simp: in_set_conv_nth)
      from i len have i': "i < length segs" by (simp add: s0_def)
      then have "length (segs ! i) = length ps" using fl by simp
      with sub i' one x show "length x = 1" by (simp add: s0_def)
    qed
    then have "length (concat parts) = length parts" by (rule length_concat_singletons)
    with len n have "length (concat parts) = length ts div length ps" by (simp add: s0_def)
    with fin show ?thesis by simp
  qed
  with c' r' show "\<exists>s0 s1 k1. Sweepstake ps ts = Some s0 \<and> assign_teams g (s0, k) = Inr (s1, k1) \<and>
         (\<forall>p \<in> set ps. \<exists>l. map_of (assignments s1) p = Some l \<and>
                              length l = length ts div length ps)"
    by blast
qed

text \<open>
  The theorem at participants \<open>[A, B]\<close>: the full segment \<open>[T1, T2]\<close> on the constructed
  object, and the run on the four teams \<open>[T1, T2, T3, T4]\<close>, after which \<open>B\<close> has two.
\<close>

theorem full_segment_one_each_witness:
  "(\<exists>s' k' t.
      assign_from_segments counting_choice [''T1'', ''T2'']
        (\<lparr>participants = [''A'', ''B''], teams = [''T1'', ''T2''],
          segmented_teams = [[''T1'', ''T2'']],
          assignments = [(''A'', []), (''B'', [])]\<rparr>, 0) = Inr (s', k') \<and>
      map_of (assignments s') ''B'' = Some [t]) \<and>
   (\<exists>s0 s1 k1 l. Sweepstake [''A'', ''B''] [''T1'', ''T2'', ''T3'', ''T4''] = Some s0 \<and>
      assign_teams counting_choice (s0, 0) = Inr (s1, k1) \<and>
      map_of (assignments s1) ''B'' = Some l \<and> length l = 2)"
proof -
  let ?s = "\<lparr>participants = [''A'', ''B''], teams = [''T1'', ''T2''],
          segmented_teams = [[''T1'', ''T2'']],
          assignments = [(''A'', []), (''B'', [])]\<rparr>"
  note t = full_segment_one_each
    [where s = ?s and seg = "[''T1'', ''T2'']" and g = counting_choice and k = 0
       and ps = "[''A'', ''B'']" and ts = "[''T1'', ''T2'', ''T3'', ''T4'']"]
  have h1: "distinct (participants ?s) \<and> set (participants ?s) \<subseteq> fst ` set (assignments ?s) \<and>
    length [''T1'', ''T2''] = length (participants ?s)" by simp
  have l2: "length [''A'', ''B''] = 2" and l4: "length [''T1'', ''T2'', ''T3'', ''T4''] = 4"
    by simp_all
  have q: "length [''T1'', ''T2'', ''T3'', ''T4''] div length [''A'', ''B''] = 2"
    unfolding l2 l4 by simp
  have "length [''A'', ''B''] dvd length [''T1'', ''T2'', ''T3'', ''T4'']"
    unfolding l2 l4 by simp
  then have h2: "distinct [''A'', ''B''] \<and> length [''A'', ''B''] dvd length [''T1'', ''T2'', ''T3'', ''T4'']"
    by simp
  have pB: "''B'' \<in> set (participants ?s)" "''B'' \<in> set [''A'', ''B'']" by simp_all
  from t[THEN conjunct1, rule_format, OF h1] obtain s' k' where
    r: "assign_from_segments counting_choice [''T1'', ''T2''] (?s, 0) = Inr (s', k')"
    and all: "\<forall>p \<in> set (participants ?s). \<exists>l t.
            map_of (assignments ?s) p = Some l \<and> t \<in> set [''T1'', ''T2''] \<and>
            map_of (assignments s') p = Some (l @ [t])"
    by (elim exE conjE)
  from all[rule_format, OF pB(1)] obtain t where "map_of (assignments s') ''B'' = Some [t]"
    by auto
  with r have 1: "\<exists>s' k' t.
      assign_from_segments counting_choice [''T1'', ''T2''] (?s, 0) = Inr (s', k') \<and>
      map_of (assignments s') ''B'' = Some [t]"
    by (intro exI conjI)
  from t[THEN conjunct2, rule_format, OF h2] obtain s0 s1 k1 where
    c: "Sweepstake [''A'', ''B''] [''T1'', ''T2'', ''T3'', ''T4''] = Some s0"
    and r1: "assign_teams counting_choice (s0, 0) = Inr (s1, k1)"
    and all1: "\<forall>p \<in> set [''A'', ''B'']. \<exists>l. map_of (assignments s1) p = Some l \<and>
                 length l = length [''T1'', ''T2'', ''T3'', ''T4''] div length [''A'', ''B'']"
    by (elim exE conjE)
  from all1[rule_format, OF pB(2)] obtain l where
    "map_of (assignments s1) ''B'' = Some l"
    "length l = length [''T1'', ''T2'', ''T3'', ''T4''] div length [''A'', ''B'']"
    by (elim exE conjE)
  then have "map_of (assignments s1) ''B'' = Some l" "length l = 2"
    by (simp_all only: q)
  with c r1 have 2: "\<exists>s0 s1 k1 l. Sweepstake [''A'', ''B''] [''T1'', ''T2'', ''T3'', ''T4''] = Some s0 \<and>
      assign_teams counting_choice (s0, 0) = Inr (s1, k1) \<and>
      map_of (assignments s1) ''B'' = Some l \<and> length l = 2"
    by (intro exI conjI)
  from 1 2 show ?thesis by (rule conjI)
qed

end
